theory Spec2Isabelle
  imports Main "HOL-Library.Word"
begin

unbundle bit_operations_syntax

section \<open>Data model\<close>

text \<open>
  The class \<open>glcd\<close> of \<open>glcd.cpp\<close> draws into the page-addressed pixel memory of
  its base class \<open>glcd_Device\<close>. Every coordinate and every data byte of the source is a
  \<open>uint8_t\<close>, modelled as an \<open>8 word\<close>: \<open>+\<close> and \<open>-\<close> wrap around as the
  assignments to \<open>uint8_t\<close> variables do, and where C promotes to \<open>int\<close> before it
  compares, the model compares \<open>unat\<close> or \<open>uint\<close> values.
\<close>

type_synonym byte = "8 word"

text \<open>
  The state of a \<open>glcd\<close> object: the pixel memory (one byte for each column and page,
  bit \<open>b\<close> of the byte at column \<open>c\<close> and page \<open>p\<close> is the pixel at row
  \<open>8 * p + b\<close>), the cursor \<open>Coord\<close> of the device, and the field \<open>Inverted\<close>.
\<close>

record glcd =
  mem :: "nat \<Rightarrow> nat \<Rightarrow> byte"
  Coord_x :: byte
  Coord_y :: byte
  Inverted :: byte

definition pixel :: "glcd \<Rightarrow> nat \<Rightarrow> nat \<Rightarrow> bool" where
  "pixel s c r = bit (mem s c (r div 8)) (r mod 8)"

text \<open>
  Modelled from the spec: the colour constants \<open>BLACK\<close> and \<open>WHITE\<close> of \<open>glcd.h\<close>,
  which is not part of the source. They are the foreground and the background colour;
  \<open>ClearPage\<close> writes the colour itself as the byte of eight pixels, so the foreground
  colour is the byte with every pixel set and the background colour the byte with none.
\<close>

definition BLACK :: byte where
  "BLACK = 0xFF"

definition WHITE :: byte where
  "WHITE = 0x00"

section \<open>The primitives of the device\<close>

text \<open>
  Modelled from the spec: \<open>glcd_Device::GotoXY\<close>, which is not part of the source.
  It sets the cursor to column \<open>x\<close> and to the page of row \<open>y\<close>.
\<close>

definition GotoXY :: "byte \<Rightarrow> byte \<Rightarrow> glcd \<Rightarrow> glcd" where
  "GotoXY x y s = s\<lparr>Coord_x := x, Coord_y := y\<rparr>"

text \<open>
  Modelled from the spec: \<open>glcd_Device::ReadData\<close>, which is not part of the source.
  It reads the vertical byte at the cursor. The spec requires the read-then-write pair of
  \<open>InvertRect\<close> to hit the same column (for every column, read the existing byte and
  write the recombined one), so the read leaves the cursor on the column it read and the
  write that follows advances it.
\<close>

definition ReadData :: "glcd \<Rightarrow> byte" where
  "ReadData s = mem s (unat (Coord_x s)) (unat (Coord_y s) div 8)"

text \<open>
  Modelled from the spec: \<open>glcd_Device::WriteData\<close>, which is not part of the source.
  It writes one vertical byte at the cursor and advances the cursor's column. On a page
  boundary the byte replaces the byte of the page. Off a page boundary the eight pixels
  span two pages and are ORed into both (the comment in \<open>DrawBitmap\<close>: the low level
  \<open>WriteData\<close> ORs in the pixels when data spans a memory page).
\<close>

definition WriteData :: "byte \<Rightarrow> glcd \<Rightarrow> glcd" where
  "WriteData d s =
     (let x = unat (Coord_x s); p = unat (Coord_y s) div 8; off = unat (Coord_y s) mod 8;
          m = mem s;
          m' = (if off = 0 then m(x := (m x)(p := d))
                else m(x := (m x)(p := m x p OR push_bit off d,
                                  Suc p := m x (Suc p) OR drop_bit (8 - off) d)))
      in s\<lparr>mem := m', Coord_x := Coord_x s + 1\<rparr>)"

text \<open>
  Modelled from the spec: \<open>glcd_Device::SetDot\<close>, which is not part of the source.
  It sets (colour \<open>BLACK\<close>) or clears a single pixel without disturbing the rest of its
  page byte.
\<close>

definition SetDot :: "byte \<Rightarrow> byte \<Rightarrow> byte \<Rightarrow> glcd \<Rightarrow> glcd" where
  "SetDot x y color s =
     (let c = unat x; p = unat y div 8; b = unat y mod 8; m = mem s
      in s\<lparr>mem := m(c := (m c)(p := (if color = BLACK then set_bit b (m c p)
                                        else unset_bit b (m c p))))\<rparr>)"

section \<open>DrawLine\<close>

text \<open>
  The macro \<open>_GLCD_absDiff\<close>: its operands are promoted to \<open>int\<close>, so the difference
  does not wrap.
\<close>

definition absDiff :: "byte \<Rightarrow> byte \<Rightarrow> int" where
  "absDiff x y = (if x > y then uint x - uint y else uint y - uint x)"

text \<open>
  The loop \<open>for(x = x1; x <= x2; x++)\<close> of \<open>DrawLine\<close>. The counter is a
  \<open>uint8_t\<close>: with \<open>x2 = 255\<close> the test never fails and the loop does not return,
  which is the value \<open>None\<close>. The variable \<open>error\<close> is an \<open>int8_t\<close>, read
  with \<open>sint\<close>.
\<close>

partial_function (option) DrawLine_loop ::
  "bool \<Rightarrow> byte \<Rightarrow> byte \<Rightarrow> byte \<Rightarrow> byte \<Rightarrow> byte \<Rightarrow> byte \<Rightarrow> byte \<Rightarrow> byte \<Rightarrow> glcd \<Rightarrow> glcd option"
where
  [code]: "DrawLine_loop steep deltax deltay ystep x2 color x y error s =
     (if x \<le> x2 then
        (let s1 = (if steep then SetDot y x color s else SetDot x y color s);
             error1 = error - deltay
         in if sint error1 < 0
            then DrawLine_loop steep deltax deltay ystep x2 color (x + 1) (y + ystep) (error1 + deltax) s1
            else DrawLine_loop steep deltax deltay ystep x2 color (x + 1) y error1 s1)
      else Some s)"

text \<open>
  \<open>glcd::DrawLine\<close>. The parameters \<open>W\<close> and \<open>H\<close> are the macros
  \<open>DISPLAY_WIDTH\<close> and \<open>DISPLAY_HEIGHT\<close> of \<open>glcd_Config.h\<close>, which is not part
  of the source; the code passes them where a \<open>uint8_t\<close> is expected
  (\<open>ClearPage(page, 0, DISPLAY_WIDTH, color)\<close>), so they are bytes here.
  \<open>ystep\<close> is the \<open>int8_t\<close> 1 or -1, added to the \<open>uint8_t\<close> \<open>y\<close>.
\<close>

definition DrawLine :: "byte \<Rightarrow> byte \<Rightarrow> byte \<Rightarrow> byte \<Rightarrow> byte \<Rightarrow> byte \<Rightarrow> byte \<Rightarrow> glcd \<Rightarrow> glcd option" where
  "DrawLine W H x1 y1 x2 y2 color s =
     (let x1 = (if x1 \<ge> W then 0 else x1);
          x2 = (if x2 \<ge> W then 0 else x2);
          y1 = (if y1 \<ge> H then 0 else y1);
          y2 = (if y2 \<ge> H then 0 else y2);
          steep = (absDiff y1 y2 > absDiff x1 x2);
          (x1, y1, x2, y2) = (if steep then (y1, x1, y2, x2) else (x1, y1, x2, y2));
          (x1, y1, x2, y2) = (if x1 > x2 then (x2, y2, x1, y1) else (x1, y1, x2, y2));
          deltax = x2 - x1;
          deltay = (word_of_int (absDiff y2 y1) :: byte);
          error = deltax div 2;
          ystep = (if y1 < y2 then 1 else - 1)
      in DrawLine_loop steep deltax deltay ystep x2 color x1 y1 error s)"

text \<open>
  The part of \<open>DrawLine\<close> that follows the fix-up of the coordinates (from the
  computation of \<open>steep\<close> to the end of the loop), as a function of the fixed-up
  coordinates. It is used to state what line a call computes; \<open>DrawLine_fudge\<close>
  below proves that \<open>DrawLine\<close> is this function after the fix-up.
\<close>

definition DrawLine_from :: "byte \<Rightarrow> byte \<Rightarrow> byte \<Rightarrow> byte \<Rightarrow> byte \<Rightarrow> glcd \<Rightarrow> glcd option" where
  "DrawLine_from x1 y1 x2 y2 color s =
     (let steep = (absDiff y1 y2 > absDiff x1 x2);
          (x1, y1, x2, y2) = (if steep then (y1, x1, y2, x2) else (x1, y1, x2, y2));
          (x1, y1, x2, y2) = (if x1 > x2 then (x2, y2, x1, y1) else (x1, y1, x2, y2));
          deltax = x2 - x1;
          deltay = (word_of_int (absDiff y2 y1) :: byte);
          error = deltax div 2;
          ystep = (if y1 < y2 then 1 else - 1)
      in DrawLine_loop steep deltax deltay ystep x2 color x1 y1 error s)"

section \<open>ClearPage and ClearScreen\<close>

text \<open>The loop \<open>while(length--) WriteData(color)\<close> of \<open>ClearPage\<close>.\<close>

function ClearPage_loop :: "byte \<Rightarrow> byte \<Rightarrow> glcd \<Rightarrow> glcd" where
  [simp del]: "ClearPage_loop len color s =
     (if len \<noteq> 0 then ClearPage_loop (len - 1) color (WriteData color s) else s)"
  by pat_completeness auto
termination
  by (relation "measure (\<lambda>(len, color, s). unat len)") (simp_all add: unat_minus_one unat_gt_0)

text \<open>
  \<open>glcd::ClearPage(page, startX, length, color)\<close>. The sum \<open>startX + length\<close> is
  computed in \<open>int\<close> and does not wrap; the new length is stored in a \<open>uint8_t\<close>; the
  row \<open>page * 8\<close> is passed to \<open>GotoXY\<close> as a \<open>uint8_t\<close>.
\<close>

definition ClearPage :: "byte \<Rightarrow> byte \<Rightarrow> byte \<Rightarrow> byte \<Rightarrow> byte \<Rightarrow> glcd \<Rightarrow> glcd" where
  "ClearPage W page startX len color s =
     (let len = (if unat startX + unat len > unat W then W - startX else len)
      in ClearPage_loop len color (GotoXY startX (page * 8) s))"

text \<open>The overload \<open>glcd::ClearPage(page, color)\<close>, which clears a full row of pages.\<close>

definition ClearPage_row :: "byte \<Rightarrow> byte \<Rightarrow> byte \<Rightarrow> glcd \<Rightarrow> glcd" where
  "ClearPage_row W page color s = ClearPage W page 0 W color s"

text \<open>\<open>glcd::ClearScreen\<close>: the loop \<open>for(page = 0; page < 8; page++)\<close>.\<close>

function ClearScreen_loop :: "byte \<Rightarrow> byte \<Rightarrow> byte \<Rightarrow> glcd \<Rightarrow> glcd" where
  [simp del]: "ClearScreen_loop W color page s =
     (if page < 8 then ClearScreen_loop W color (page + 1) (ClearPage_row W page color s) else s)"
  by pat_completeness auto
termination
  by (relation "measure (\<lambda>(W, color, page, s). 8 - unat page)")
     (simp_all add: word_less_nat_alt unat_word_ariths)

definition ClearScreen :: "byte \<Rightarrow> byte \<Rightarrow> glcd \<Rightarrow> glcd" where
  "ClearScreen W color s = ClearScreen_loop W color 0 s"

section \<open>InvertRect and SetDisplayMode\<close>

text \<open>
  The loop \<open>for(i=0; i<=width; i++)\<close> over the columns of a partial page in
  \<open>InvertRect\<close>: read the byte, flip the bits of \<open>mask\<close>, write it back. The
  counter is a \<open>uint8_t\<close>: with \<open>width = 255\<close> the loop does not return.
\<close>

partial_function (option) InvertRect_masked :: "byte \<Rightarrow> byte \<Rightarrow> byte \<Rightarrow> glcd \<Rightarrow> glcd option" where
  [code]: "InvertRect_masked msk width i s =
     (if i \<le> width then
        (let data = ReadData s;
             tmpData = NOT data;
             data = (tmpData AND msk) OR (data AND NOT msk)
         in InvertRect_masked msk width (i + 1) (WriteData data s))
      else Some s)"

text \<open>The same loop over the columns of a full page: the inverted byte is written.\<close>

partial_function (option) InvertRect_full :: "byte \<Rightarrow> byte \<Rightarrow> glcd \<Rightarrow> glcd option" where
  [code]: "InvertRect_full width i s =
     (if i \<le> width then
        (let data = ReadData s
         in InvertRect_full width (i + 1) (WriteData (NOT data) s))
      else Some s)"

text \<open>
  The loop \<open>while(h+8 <= height)\<close> over the full pages. The sum \<open>h+8\<close> is computed
  in \<open>int\<close>; \<open>h\<close> and \<open>y\<close> are \<open>uint8_t\<close>. The loop returns \<open>h\<close> and
  \<open>y\<close> with the state, since the code after it reads them.
\<close>

function InvertRect_pages :: "byte \<Rightarrow> byte \<Rightarrow> byte \<Rightarrow> byte \<Rightarrow> byte \<Rightarrow> glcd \<Rightarrow> (byte \<times> byte \<times> glcd) option" where
  [simp del]: "InvertRect_pages x width height h y s =
     (if unat h + 8 \<le> unat height then
        (case InvertRect_full width 0 (GotoXY x (y + 8) s) of
           None \<Rightarrow> None
         | Some s' \<Rightarrow> InvertRect_pages x width height (h + 8) (y + 8) s')
      else Some (h, y, s))"
  by pat_completeness auto
termination
proof (relation "measure (\<lambda>(x, width, height, h, y, s). unat height - unat h)")
  fix height h :: byte
  assume a: "unat h + 8 \<le> unat height"
  have "unat height < 256" using unsigned_less[of height, where ?'a = nat] by simp
  with a have "unat (h + 8) = unat h + 8" by (simp add: unat_word_ariths)
  with a show "((x, width, height, h + 8, y + 8, s'), (x, width, height, h, y, s))
      \<in> measure (\<lambda>(x, width, height, h, y, s). unat height - unat h)" for x width y s s'
    by simp
qed simp

text \<open>\<open>glcd::InvertRect\<close>.\<close>

definition InvertRect :: "byte \<Rightarrow> byte \<Rightarrow> byte \<Rightarrow> byte \<Rightarrow> glcd \<Rightarrow> glcd option" where
  "InvertRect x y width height s =
     (let height = height + 1;
          pageOffset = y mod 8;
          y = y - pageOffset;
          msk = (0xFF :: byte);
          (msk, h) = (if unat height < 8 - unat pageOffset
                       then (drop_bit (8 - unat height) msk, height)
                       else (msk, 8 - pageOffset));
          msk = push_bit (unat pageOffset) msk
      in case InvertRect_masked msk width 0 (GotoXY x y s) of
           None \<Rightarrow> None
         | Some s1 \<Rightarrow>
            (case InvertRect_pages x width height h y s1 of
               None \<Rightarrow> None
             | Some (h, y, s2) \<Rightarrow>
                if h < height then
                  (let msk = NOT (push_bit (unat height - unat h) (0xFF :: byte))
                   in InvertRect_masked msk width 0 (GotoXY x (y + 8) s2))
                else Some s2))"

text \<open>\<open>glcd::SetDisplayMode\<close>.\<close>

definition SetDisplayMode :: "byte \<Rightarrow> byte \<Rightarrow> byte \<Rightarrow> glcd \<Rightarrow> glcd option" where
  "SetDisplayMode W H invert s =
     (if Inverted s \<noteq> invert then
        (case InvertRect 0 0 (W - 1) (H - 1) s of
           None \<Rightarrow> None
         | Some s' \<Rightarrow> Some (s'\<lparr>Inverted := invert\<rparr>))
      else Some s)"

text \<open>
  Two functions used to state the effect of the loops (they are not part of the source):
  \<open>rows_mask y1 y2 p\<close> is the byte of page \<open>p\<close> whose set bits are the rows from
  \<open>y1\<close> to \<open>y2\<close>, both included, that lie in the page; \<open>xor_cols x n p m f\<close> is
  the memory \<open>f\<close> with \<open>m\<close> XORed into the \<open>n\<close> columns from \<open>x\<close> on of page
  \<open>p\<close>.
\<close>

definition rows_mask :: "nat \<Rightarrow> nat \<Rightarrow> nat \<Rightarrow> byte" where
  "rows_mask y1 y2 p = horner_sum of_bool 2 (map (\<lambda>b. y1 \<le> 8 * p + b \<and> 8 * p + b \<le> y2) [0..<8])"

definition xor_cols :: "nat \<Rightarrow> nat \<Rightarrow> nat \<Rightarrow> byte \<Rightarrow> (nat \<Rightarrow> nat \<Rightarrow> byte) \<Rightarrow> nat \<Rightarrow> nat \<Rightarrow> byte" where
  "xor_cols x n p m f = (\<lambda>c q. if q = p \<and> x \<le> c \<and> c < x + n then f c q XOR m else f c q)"

section \<open>Rectangles\<close>

text \<open>
  Modelled from the spec: \<open>glcd_Device::SetPixels\<close>, which is not part of the source.
  It is the bulk pixel-region set of the spec: every pixel of the closed box from column
  \<open>x\<close> to column \<open>x2\<close> and from row \<open>y\<close> to row \<open>y2\<close> is set (colour
  \<open>BLACK\<close>) or cleared, and no other pixel changes. (The doc comments of
  \<open>DrawHLine\<close> and \<open>DrawVLine\<close> in the source agree: \<open>SetPixels(x, y, x+width, y)\<close>
  draws a line of \<open>width+1\<close> pixels.)
\<close>

definition SetPixels :: "byte \<Rightarrow> byte \<Rightarrow> byte \<Rightarrow> byte \<Rightarrow> byte \<Rightarrow> glcd \<Rightarrow> glcd" where
  "SetPixels x y x2 y2 color s =
     s\<lparr>mem := (\<lambda>c p. if unat x \<le> c \<and> c \<le> unat x2
                       then (if color = BLACK then mem s c p OR rows_mask (unat y) (unat y2) p
                             else mem s c p AND NOT (rows_mask (unat y) (unat y2) p))
                       else mem s c p)\<rparr>"

text \<open>\<open>glcd::DrawVLine\<close>, \<open>glcd::DrawHLine\<close>, \<open>glcd::DrawRect\<close> and \<open>glcd::FillRect\<close>.\<close>

definition DrawVLine :: "byte \<Rightarrow> byte \<Rightarrow> byte \<Rightarrow> byte \<Rightarrow> glcd \<Rightarrow> glcd" where
  "DrawVLine x y height color s = SetPixels x y x (y + height) color s"

definition DrawHLine :: "byte \<Rightarrow> byte \<Rightarrow> byte \<Rightarrow> byte \<Rightarrow> glcd \<Rightarrow> glcd" where
  "DrawHLine x y width color s = SetPixels x y (x + width) y color s"

definition DrawRect :: "byte \<Rightarrow> byte \<Rightarrow> byte \<Rightarrow> byte \<Rightarrow> byte \<Rightarrow> glcd \<Rightarrow> glcd" where
  "DrawRect x y width height color s =
     (let s = DrawHLine x y width color s;
          s = DrawHLine x (y + height) width color s;
          s = DrawVLine x y height color s
      in DrawVLine (x + width) y height color s)"

definition FillRect :: "byte \<Rightarrow> byte \<Rightarrow> byte \<Rightarrow> byte \<Rightarrow> byte \<Rightarrow> glcd \<Rightarrow> glcd" where
  "FillRect x y width height color s = SetPixels x y (x + width) (y + height) color s"

section \<open>DrawBitmap\<close>

text \<open>
  The bitmap lies in program memory, a function from addresses to bytes; the pointer
  \<open>bitmap\<close> is an address. \<open>ReadPgmData\<close> is \<open>pgm_read_byte\<close>.
\<close>

definition ReadPgmData :: "(nat \<Rightarrow> byte) \<Rightarrow> nat \<Rightarrow> byte" where
  "ReadPgmData pgm ptr = pgm ptr"

text \<open>
  The inner loop \<open>for(i = 0; i < width; i++)\<close> of \<open>DrawBitmap\<close>; it returns the
  advanced pointer with the state.
\<close>

function DrawBitmap_cols :: "(nat \<Rightarrow> byte) \<Rightarrow> byte \<Rightarrow> byte \<Rightarrow> byte \<Rightarrow> nat \<Rightarrow> glcd \<Rightarrow> nat \<times> glcd" where
  [simp del]: "DrawBitmap_cols pgm color width i bitmap s =
     (if i < width then
        (let displayData = ReadPgmData pgm bitmap;
             s = (if color = BLACK then WriteData displayData s
                  else WriteData (NOT displayData) s)
         in DrawBitmap_cols pgm color width (i + 1) (bitmap + 1) s)
      else (bitmap, s))"
  by pat_completeness auto
termination
proof (relation "measure (\<lambda>(pgm, color, width, i, bitmap, s). unat width - unat i)")
  fix width i :: byte
  assume a: "i < width"
  then have "unat i < unat width" by (simp add: word_less_nat_alt)
  moreover have "unat width < 256" using unsigned_less[of width, where ?'a = nat] by simp
  ultimately have "unat (i + 1) = unat i + 1" by (simp add: unat_word_ariths)
  with \<open>unat i < unat width\<close>
  show "((pgm, color, width, i + 1, bitmap + 1, s'), (pgm, color, width, i, bitmap, s))
      \<in> measure (\<lambda>(pgm, color, width, i, bitmap, s). unat width - unat i)" for pgm color bitmap s s'
    by simp
qed simp

text \<open>
  The outer loop \<open>for(j = 0; j < height / 8; j++)\<close>. The quotient \<open>height / 8\<close> is
  computed in \<open>int\<close>; the row \<open>y + (j*8)\<close> is passed to \<open>GotoXY\<close> as a \<open>uint8_t\<close>.
\<close>

function DrawBitmap_rows :: "(nat \<Rightarrow> byte) \<Rightarrow> byte \<Rightarrow> byte \<Rightarrow> byte \<Rightarrow> byte \<Rightarrow> byte \<Rightarrow> byte \<Rightarrow> nat \<Rightarrow> glcd \<Rightarrow> glcd" where
  [simp del]: "DrawBitmap_rows pgm x y color width height j bitmap s =
     (if unat j < unat height div 8 then
        (let (bitmap, s) = DrawBitmap_cols pgm color width 0 bitmap (GotoXY x (y + j * 8) s)
         in DrawBitmap_rows pgm x y color width height (j + 1) bitmap s)
      else s)"
  by pat_completeness auto
termination
proof (relation "measure (\<lambda>(pgm, x, y, color, width, height, j, bitmap, s). unat height div 8 - unat j)")
  fix height j :: byte
  assume a: "unat j < unat height div 8"
  have "unat height < 256" using unsigned_less[of height, where ?'a = nat] by simp
  with a have "unat (j + 1) = unat j + 1" by (simp add: unat_word_ariths)
  with a
  show "((pgm, x, y, color, width, height, j + 1, bitmap', s'), (pgm, x, y, color, width, height, j, bitmap, s))
      \<in> measure (\<lambda>(pgm, x, y, color, width, height, j, bitmap, s). unat height div 8 - unat j)"
    for pgm x y color width bitmap bitmap' s s'
    by simp
qed simp

text \<open>\<open>glcd::DrawBitmap\<close>, with \<open>BITMAP_FIX\<close> defined as in the source.\<close>

definition DrawBitmap :: "(nat \<Rightarrow> byte) \<Rightarrow> nat \<Rightarrow> byte \<Rightarrow> byte \<Rightarrow> byte \<Rightarrow> glcd \<Rightarrow> glcd" where
  "DrawBitmap pgm bitmap x y color s =
     (let width = ReadPgmData pgm bitmap;
          height = ReadPgmData pgm (bitmap + 1);
          bitmap = bitmap + 2;
          s = (if y AND 7 \<noteq> 0 \<or> height AND 7 \<noteq> 0 then FillRect x y width height WHITE s else s)
      in DrawBitmap_rows pgm x y color width height 0 bitmap s)"

section \<open>FillCircle\<close>

text \<open>
  The loop \<open>while(x < y)\<close> of \<open>FillCircle\<close>. The variables \<open>f\<close>, \<open>ddF_x\<close>
  and \<open>ddF_y\<close> are of type \<open>int\<close>; they stay between -1024 and 1024 for every
  radius that a \<open>uint8_t\<close> holds, so they are modelled without wrap-around. The
  coordinates passed to \<open>DrawLine\<close> are sums and differences computed in \<open>int\<close> and
  converted to \<open>uint8_t\<close>.
\<close>

function FillCircle_loop ::
  "byte \<Rightarrow> byte \<Rightarrow> byte \<Rightarrow> byte \<Rightarrow> byte \<Rightarrow> int \<Rightarrow> int \<Rightarrow> int \<Rightarrow> byte \<Rightarrow> byte \<Rightarrow> glcd \<Rightarrow> glcd option"
where
  [simp del]: "FillCircle_loop W H x0 y0 color f ddF_x ddF_y x y s =
     (if x < y then
        (let (y, ddF_y, f) = (if f \<ge> 0 then (y - 1, ddF_y + 2, f + (ddF_y + 2)) else (y, ddF_y, f));
             x = x + 1;
             ddF_x = ddF_x + 2;
             f = f + ddF_x
         in case DrawLine W H (x0 + x) (y0 + y) (x0 + x) (y0 - y) color s of
              None \<Rightarrow> None
            | Some s \<Rightarrow>
           (case DrawLine W H (x0 - x) (y0 + y) (x0 - x) (y0 - y) color s of
              None \<Rightarrow> None
            | Some s \<Rightarrow>
           (case DrawLine W H (x0 + y) (y0 + x) (y + x0) (y0 - x) color s of
              None \<Rightarrow> None
            | Some s \<Rightarrow>
           (case DrawLine W H (x0 - y) (y0 + x) (x0 - y) (y0 - x) color s of
              None \<Rightarrow> None
            | Some s \<Rightarrow> FillCircle_loop W H x0 y0 color f ddF_x ddF_y x y s))))
      else Some s)"
  by pat_completeness auto
termination
proof (relation "measure (\<lambda>(W, H, x0, y0, color, f, ddF_x, ddF_y, x, y, s). unat y - unat x)",
    goal_cases)
  case 1
  show ?case by simp
next
  case 2
  have inc: "unat (x + 1) = unat x + 1" if "x < y" for x y :: byte
  proof -
    have "unat x < unat y" using that by (simp add: word_less_nat_alt)
    moreover have "unat y < 256" using unsigned_less[of y, where ?'a = nat] by simp
    ultimately show ?thesis by (simp add: unat_word_ariths)
  qed
  have dec: "unat (y - 1) = unat y - 1" if "x < y" for x y :: byte
  proof -
    have "y \<noteq> 0" using that by auto
    then show ?thesis by (simp add: unat_minus_one)
  qed
  from 2 show ?case
    using inc dec by (auto simp: word_less_nat_alt split: if_splits)
qed

text \<open>\<open>glcd::FillCircle\<close>.\<close>

definition FillCircle :: "byte \<Rightarrow> byte \<Rightarrow> byte \<Rightarrow> byte \<Rightarrow> byte \<Rightarrow> byte \<Rightarrow> glcd \<Rightarrow> glcd option" where
  "FillCircle W H x0 y0 radius color s =
     (let f = 1 - uint radius;
          ddF_x = 1;
          ddF_y = - 2 * uint radius;
          x = 0;
          y = radius
      in case DrawLine W H x0 (y0 - radius) x0 (y0 + radius) color s of
           None \<Rightarrow> None
         | Some s \<Rightarrow> FillCircle_loop W H x0 y0 color f ddF_x ddF_y x y s)"

text \<open>
  Two functions used to state what \<open>FillCircle\<close> paints (they are not part of the
  source). \<open>in_disc R a b\<close> holds for the offsets \<open>(a, b)\<close> from the centre that the
  circle of radius \<open>R\<close> covers. \<open>painted R X Y a b\<close> holds for the offsets that are
  painted when the loop is at \<open>x = X\<close> and \<open>y = Y\<close>: the columns of the disc up to
  \<open>X\<close> and beyond \<open>Y\<close>, and the part of the column \<open>Y\<close> up to the row \<open>X\<close>.
\<close>

definition disc_fn :: "int \<Rightarrow> int \<Rightarrow> int" where
  "disc_fn a b = a * a + b * b - max a b"

definition in_disc :: "nat \<Rightarrow> int \<Rightarrow> int \<Rightarrow> bool" where
  "in_disc R a b = ((a = 0 \<and> b = 0) \<or> disc_fn \<bar>a\<bar> \<bar>b\<bar> < int R * int R)"

definition painted :: "nat \<Rightarrow> int \<Rightarrow> int \<Rightarrow> int \<Rightarrow> int \<Rightarrow> bool" where
  "painted R X Y a b =
     (in_disc R a b \<and>
      (\<bar>a\<bar> \<le> X \<or> Y < \<bar>a\<bar> \<or> (\<bar>a\<bar> = Y \<and> \<bar>b\<bar> \<le> X \<and> 0 < X)))"

section \<open>Properties of DrawLine\<close>

lemma DrawLine_fudge:
  "DrawLine W H x1 y1 x2 y2 color s =
   DrawLine_from (if x1 \<ge> W then 0 else x1) (if y1 \<ge> H then 0 else y1)
                 (if x2 \<ge> W then 0 else x2) (if y2 \<ge> H then 0 else y2) color s"
  unfolding DrawLine_def DrawLine_from_def by (simp only: Let_def)

lemma absDiff_commute: "absDiff x y = absDiff y x"
  by (auto simp: absDiff_def)

lemma absDiff_0_iff: "absDiff x y = 0 \<longleftrightarrow> x = y"
  by (auto simp: absDiff_def word_less_def word_uint_eq_iff)

lemma absDiff_nonneg: "0 \<le> absDiff x y"
  by (auto simp: absDiff_def word_less_def)

lemma byte_order_cases:
  fixes a b :: byte
  shows "(a < b \<and> \<not> b < a \<and> a \<noteq> b) \<or> a = b \<or> (b < a \<and> \<not> a < b \<and> a \<noteq> b)"
  by auto

text \<open>
  Both orders of the endpoints are normalised to the same start point, end point, slope
  and step, so the two calls run the same loop.
\<close>

lemma DrawLine_from_sym: "DrawLine_from x2 y2 x1 y1 c s = DrawLine_from x1 y1 x2 y2 c s"
proof (cases "absDiff y1 y2 > absDiff x1 x2")
  case True
  then have st: "absDiff y2 y1 > absDiff x2 x1" by (simp add: absDiff_commute)
  from True have ne: "y1 \<noteq> y2" using absDiff_nonneg[of x1 x2] absDiff_0_iff[of y1 y2] by auto
  show ?thesis using True st ne byte_order_cases[of x1 x2] byte_order_cases[of y1 y2]
    by (elim disjE conjE; simp add: DrawLine_from_def Let_def absDiff_commute[of x1 x2])
next
  case False
  then have st: "\<not> absDiff y2 y1 > absDiff x2 x1" by (simp add: absDiff_commute)
  have eq: "x1 = x2 \<Longrightarrow> y1 = y2"
    using False absDiff_nonneg[of y1 y2] absDiff_0_iff[of y1 y2] absDiff_0_iff[of x1 x2] by auto
  show ?thesis using False st eq byte_order_cases[of x1 x2] byte_order_cases[of y1 y2]
    by (elim disjE conjE; simp add: DrawLine_from_def Let_def absDiff_commute[of y1 y2])
qed

text \<open>The loop returns when its bound is below 255, so that the counter cannot wrap.\<close>

lemma DrawLine_loop_returns:
  "unat x2 < 255 \<Longrightarrow> unat x \<le> unat x2 + 1 \<Longrightarrow>
   \<exists>s'. DrawLine_loop steep dx dy ys x2 c x y e s = Some s'"
proof (induction "unat x2 + 1 - unat x" arbitrary: x y e s)
  case 0
  then have "\<not> x \<le> x2" by (simp add: word_le_nat_alt)
  then show ?case by (subst DrawLine_loop.simps) simp
next
  case (Suc n)
  then have le: "x \<le> x2" by (simp add: word_le_nat_alt)
  have ux: "unat (x + 1) = unat x + 1"
    using Suc.prems le by (simp add: unat_word_ariths word_le_nat_alt)
  have n: "n = unat x2 + 1 - unat (x + 1)" using Suc.hyps(2) ux by simp
  have b: "unat (x + 1) \<le> unat x2 + 1" using le ux by (simp add: word_le_nat_alt)
  show ?case
    apply (subst DrawLine_loop.simps)
    using le Suc.hyps(1)[OF n Suc.prems(1) b] by (simp add: Let_def)
qed

lemma fudge_lt: "unat (if (x::byte) \<ge> W then 0 else x) < 255"
proof (cases "x \<ge> W")
  case True then show ?thesis by simp
next
  case False
  then have "unat x < unat W" by (simp add: word_le_nat_alt)
  moreover have "unat W < 256" using unsigned_less[of W, where ?'a = nat] by simp
  ultimately show ?thesis using False by simp
qed

lemma DrawLine_from_returns:
  assumes "unat x1 < 255" "unat y1 < 255" "unat x2 < 255" "unat y2 < 255"
  shows "\<exists>s'. DrawLine_from x1 y1 x2 y2 c s = Some s'"
proof -
  have r: "\<And>steep dx dy ys a b y e. unat b < 255 \<Longrightarrow> \<not> b < a \<Longrightarrow>
        \<exists>s'. DrawLine_loop steep dx dy ys b c a y e s = Some s'"
    by (rule DrawLine_loop_returns) (simp_all add: word_less_nat_alt)
  have r': "\<And>steep dx dy ys a b y e. unat b < 255 \<Longrightarrow> a < b \<Longrightarrow>
        \<exists>s'. DrawLine_loop steep dx dy ys b c a y e s = Some s'"
    by (rule DrawLine_loop_returns) (simp_all add: word_less_nat_alt)
  show ?thesis
  proof (cases "absDiff x1 x2 < absDiff y1 y2")
    case True
    then show ?thesis
      by (cases "y2 < y1") (simp_all add: DrawLine_from_def Let_def r r' assms)
  next
    case False
    then show ?thesis
      by (cases "x2 < x1") (simp_all add: DrawLine_from_def Let_def r r' assms)
  qed
qed

lemma DrawLine_returns: "\<exists>s'. DrawLine W H x1 y1 x2 y2 c s = Some s'"
  unfolding DrawLine_fudge by (rule DrawLine_from_returns) (rule fudge_lt)+

text \<open>
  C2: \<open>DrawLine(x1,y1,x2,y2,color)\<close> and \<open>DrawLine(x2,y2,x1,y1,color)\<close> set the
  same pixels: from every state and for every colour both calls return, and they return
  the same pixel memory. (It holds for all endpoints, those within the canvas bounds
  among them, since both calls fix up an out-of-range coordinate in the same way.)
\<close>

theorem DrawLine_symmetric:
  "DrawLine W H x2 y2 x1 y1 color s = DrawLine W H x1 y1 x2 y2 color s \<and>
   (\<exists>s'. DrawLine W H x1 y1 x2 y2 color s = Some s')"
  using DrawLine_returns[of W H x1 y1 x2 y2 color s]
  by (simp add: DrawLine_fudge DrawLine_from_sym)

text \<open>
  C7: \<open>DrawLine\<close> computes the line of the coordinates in which each \<open>x\<close> at or
  beyond \<open>DISPLAY_WIDTH\<close> and each \<open>y\<close> at or beyond \<open>DISPLAY_HEIGHT\<close> is
  replaced by 0 and every other coordinate is kept; it is the call with the replaced
  coordinates, and it returns a state for every input (nothing is rejected).
\<close>

theorem DrawLine_out_of_range_is_zero:
  "DrawLine W H x1 y1 x2 y2 color s =
     DrawLine_from (if x1 \<ge> W then 0 else x1) (if y1 \<ge> H then 0 else y1)
                   (if x2 \<ge> W then 0 else x2) (if y2 \<ge> H then 0 else y2) color s \<and>
   DrawLine W H x1 y1 x2 y2 color s =
     DrawLine W H (if x1 \<ge> W then 0 else x1) (if y1 \<ge> H then 0 else y1)
                  (if x2 \<ge> W then 0 else x2) (if y2 \<ge> H then 0 else y2) color s \<and>
   (\<exists>s'. DrawLine W H x1 y1 x2 y2 color s = Some s')"
proof -
  have idem: "\<And>(B::byte) v. (if (if v \<ge> B then 0 else v) \<ge> B then 0 else (if v \<ge> B then 0 else v))
                    = (if v \<ge> B then 0 else v)"
    by simp
  have "DrawLine W H (if x1 \<ge> W then 0 else x1) (if y1 \<ge> H then 0 else y1)
                  (if x2 \<ge> W then 0 else x2) (if y2 \<ge> H then 0 else y2) color s
        = DrawLine W H x1 y1 x2 y2 color s"
    by (simp only: DrawLine_fudge[of W H _ _ _ _ color s] idem)
  then show ?thesis
    using DrawLine_returns[of W H x1 y1 x2 y2 color s] DrawLine_fudge[of W H x1 y1 x2 y2 color s]
    by simp
qed

section \<open>Properties of ClearPage and ClearScreen\<close>

lemma byte_le_255: "unat (w :: byte) \<le> 255"
  using unsigned_less[of w, where ?'a = nat] by simp

lemma WriteData_aligned:
  "unat (Coord_y s) mod 8 = 0 \<Longrightarrow>
   WriteData d s = s\<lparr>mem := (mem s)(unat (Coord_x s) := (mem s (unat (Coord_x s)))(unat (Coord_y s) div 8 := d)),
                     Coord_x := Coord_x s + 1\<rparr>"
  by (simp add: WriteData_def Let_def)

lemma ClearPage_loop_mem:
  "unat (Coord_y s) mod 8 = 0 \<Longrightarrow> unat (Coord_x s) + unat len \<le> 255 \<Longrightarrow>
   mem (ClearPage_loop len color s) c p =
     (if p = unat (Coord_y s) div 8 \<and> unat (Coord_x s) \<le> c \<and> c < unat (Coord_x s) + unat len
      then color else mem s c p)"
proof (induction len color s rule: ClearPage_loop.induct)
  case (1 len color s)
  show ?case
  proof (cases "len = 0")
    case True
    then show ?thesis by (subst ClearPage_loop.simps) auto
  next
    case False
    then have l: "unat (len - 1) = unat len - 1" "0 < unat len"
      by (simp_all add: unat_minus_one unat_gt_0)
    have x: "unat (Coord_x s + 1) = unat (Coord_x s) + 1"
      using 1(3) l by (simp add: unat_word_ariths)
    let ?s = "WriteData color s"
    have s: "Coord_y ?s = Coord_y s" "Coord_x ?s = Coord_x s + 1"
      by (simp_all add: WriteData_def Let_def)
    have IH: "mem (ClearPage_loop (len - 1) color ?s) c p =
        (if p = unat (Coord_y s) div 8 \<and> unat (Coord_x s) + 1 \<le> c \<and> c < unat (Coord_x s) + 1 + (unat len - 1)
         then color else mem ?s c p)"
      using 1(1)[OF False] 1(2,3) l x s by simp
    show ?thesis
      apply (subst ClearPage_loop.simps)
      using False IH l 1(2) by (auto simp: WriteData_aligned)
  qed
qed

lemma unat_page_row: "unat (page * 8 :: byte) mod 8 = 0"
proof -
  have "unat (page * 8) = (unat page * 8) mod 256" by (simp add: unat_word_ariths)
  moreover have "(unat page * 8) mod 256 mod 8 = (unat page * 8) mod 8"
    by (rule mod_mod_cancel) simp
  ultimately show ?thesis by simp
qed

lemma unat_page_row_div: "page < 32 \<Longrightarrow> unat (page * 8 :: byte) div 8 = unat page"
  by (simp add: unat_word_ariths word_less_nat_alt)

lemma ClearPage_mem:
  assumes "startX \<le> W"
  shows "mem (ClearPage W page startX len color s) c p =
     (if p = unat (page * 8) div 8 \<and> unat startX \<le> c \<and>
         c < unat startX + min (unat len) (unat W - unat startX)
      then color else mem s c p)"
proof -
  have W: "unat W \<le> 255" by (rule byte_le_255)
  have sx: "unat startX \<le> unat W" using assms(1) by (simp add: word_le_nat_alt)
  have sub: "unat (W - startX) = unat W - unat startX"
    using sx by (simp add: unat_sub word_le_nat_alt)
  show ?thesis
    unfolding ClearPage_def Let_def
    apply (subst ClearPage_loop_mem)
    using W sx sub unat_page_row[of page] by (auto simp: GotoXY_def min_def)
qed

lemma ClearScreen_loop_mem:
  "page \<le> 8 \<Longrightarrow>
   mem (ClearScreen_loop W color page s) c p =
     (if unat page \<le> p \<and> p < 8 \<and> c < unat W then color else mem s c p)"
proof (induction W color page s rule: ClearScreen_loop.induct)
  case (1 W color page s)
  show ?case
  proof (cases "page < 8")
    case False
    then have "unat page \<ge> 8" by (simp add: word_less_nat_alt)
    with False show ?thesis by (subst ClearScreen_loop.simps) auto
  next
    case True
    then have u: "unat page < 8" by (simp add: word_less_nat_alt)
    then have u1: "unat (page + 1) = unat page + 1" by (simp add: unat_word_ariths)
    have le: "page + 1 \<le> 8" using u u1 by (simp add: word_le_nat_alt)
    have p32: "page < 32" using u by (simp add: word_less_nat_alt)
    have IH: "mem (ClearScreen_loop W color (page + 1) (ClearPage_row W page color s)) c p =
        (if unat page + 1 \<le> p \<and> p < 8 \<and> c < unat W then color
         else mem (ClearPage_row W page color s) c p)"
      using 1(1)[OF True le] u1 by simp
    show ?thesis
      apply (subst ClearScreen_loop.simps)
      using True IH u by (auto simp: ClearPage_row_def ClearPage_mem unat_page_row_div[OF p32])
  qed
qed

lemma ClearScreen_mem:
  "mem (ClearScreen W color s) c p = (if p < 8 \<and> c < unat W then color else mem s c p)"
  by (simp add: ClearScreen_def ClearScreen_loop_mem)

text \<open>
  C8: with \<open>startX < DISPLAY_WIDTH\<close>, \<open>ClearPage(page, startX, length, color)\<close>
  writes \<open>color\<close> to exactly the \<open>min(length, DISPLAY_WIDTH - startX)\<close> columns
  from \<open>startX\<close> on of one page and changes no other byte, so that no column beyond
  \<open>DISPLAY_WIDTH - 1\<close> is written; the function is total (nothing is signalled). The
  page written is the page of row \<open>page * 8\<close> as \<open>GotoXY\<close> receives it in a
  \<open>uint8_t\<close>: the page \<open>page\<close> itself for each of the 32 pages a canvas can have.
\<close>

theorem ClearPage_clamps_length:
  assumes "startX < W"
  shows "mem (ClearPage W page startX len color s) c p =
     (if p = unat (page * 8) div 8 \<and> unat startX \<le> c \<and>
         c < unat startX + min (unat len) (unat W - unat startX)
      then color else mem s c p) \<and>
     unat startX + min (unat len) (unat W - unat startX) \<le> unat W \<and>
     (page < 32 \<longrightarrow> unat (page * 8) div 8 = unat page)"
proof -
  have "startX \<le> W" using assms(1) by simp
  then show ?thesis
    using assms ClearPage_mem[of startX W page len color s c p] unat_page_row_div[of page]
    by (simp add: word_less_nat_alt)
qed

theorem ClearPage_clamps_length_witness:
  "(10::byte) < 128 \<and> (2::byte) < 32 \<and>
   mem (ClearPage 128 2 10 200 BLACK \<lparr>mem = \<lambda>c p. 0, Coord_x = 0, Coord_y = 0, Inverted = 0\<rparr>) 127 2 = BLACK \<and>
   mem (ClearPage 128 2 10 200 BLACK \<lparr>mem = \<lambda>c p. 0, Coord_x = 0, Coord_y = 0, Inverted = 0\<rparr>) 128 2 = 0"
  using ClearPage_clamps_length[of 10 128 2 200 BLACK "\<lparr>mem = \<lambda>c p. 0, Coord_x = 0, Coord_y = 0, Inverted = 0\<rparr>" 127 2]
    ClearPage_clamps_length[of 10 128 2 200 BLACK "\<lparr>mem = \<lambda>c p. 0, Coord_x = 0, Coord_y = 0, Inverted = 0\<rparr>" 128 2]
  by simp

text \<open>
  C4: \<open>ClearScreen\<close> clears the pages 0 to 7, whatever the height of the canvas is.
  On a canvas of 128 rows (16 pages) and 128 columns, \<open>ClearScreen(BLACK)\<close> on the
  blank canvas sets the pixel (0, 63) and leaves the pixel (0, 64), of page 8, unset.
\<close>

theorem ClearScreen_skips_page_8:
  "pixel (ClearScreen 128 BLACK \<lparr>mem = \<lambda>c p. 0, Coord_x = 0, Coord_y = 0, Inverted = 0\<rparr>) 0 64 = False \<and>
   pixel (ClearScreen 128 BLACK \<lparr>mem = \<lambda>c p. 0, Coord_x = 0, Coord_y = 0, Inverted = 0\<rparr>) 0 63 = True"
  by (simp add: pixel_def ClearScreen_mem BLACK_def)

section \<open>Properties of InvertRect and SetDisplayMode\<close>

lemma bit_rows_mask: "bit (rows_mask y1 y2 p) b \<longleftrightarrow> b < 8 \<and> y1 \<le> 8 * p + b \<and> 8 * p + b \<le> y2"
  by (auto simp: rows_mask_def bit_simps)

lemma merge_is_xor: "(NOT d AND m) OR (d AND NOT m) = d XOR (m :: byte)"
  by (rule bit_eqI) (auto simp: bit_simps)

lemma not_is_xor: "NOT d = d XOR (- 1 :: byte)"
  by (rule bit_eqI) (auto simp: bit_simps)

lemma xor_cols_0 [simp]: "xor_cols x 0 p m f = f"
  by (intro ext) (auto simp: xor_cols_def)

lemma InvertRect_masked_eq:
  assumes "unat (Coord_y s) mod 8 = 0" "unat width < 255" "unat i \<le> unat width + 1"
    "unat (Coord_x s) + (unat width + 1 - unat i) \<le> 255"
  shows "InvertRect_masked m width i s =
     Some (s\<lparr>mem := xor_cols (unat (Coord_x s)) (unat width + 1 - unat i) (unat (Coord_y s) div 8) m (mem s),
             Coord_x := Coord_x s + (width + 1 - i)\<rparr>)"
  using assms
proof (induction "unat width + 1 - unat i" arbitrary: i s)
  case 0
  then have "\<not> i \<le> width" by (simp add: word_le_nat_alt)
  moreover have "width + 1 - i = 0"
    using 0 by (simp add: word_unat_eq_iff unat_word_ariths unat_sub word_le_nat_alt)
  ultimately show ?case using 0(1)
    by (subst InvertRect_masked.simps) simp
next
  case (Suc n)
  then have le: "i \<le> width" by (simp add: word_le_nat_alt)
  have ui: "unat (i + 1) = unat i + 1"
    using Suc.prems le by (simp add: unat_word_ariths word_le_nat_alt)
  have ux: "unat (Coord_x s + 1) = unat (Coord_x s) + 1"
    using Suc.prems Suc.hyps(2) by (simp add: unat_word_ariths)
  let ?d = "ReadData s XOR m"
  let ?s = "WriteData ?d s"
  have ws: "?s = s\<lparr>mem := (mem s)(unat (Coord_x s) := (mem s (unat (Coord_x s)))(unat (Coord_y s) div 8 := ?d)),
                     Coord_x := Coord_x s + 1\<rparr>"
    using Suc.prems(1) by (simp add: WriteData_def Let_def)
  have n: "n = unat width + 1 - unat (i + 1)" using Suc.hyps(2) ui by simp
  have IH: "InvertRect_masked m width (i + 1) ?s =
     Some (?s\<lparr>mem := xor_cols (unat (Coord_x ?s)) (unat width + 1 - unat (i + 1)) (unat (Coord_y ?s) div 8) m (mem ?s),
             Coord_x := Coord_x ?s + (width + 1 - (i + 1))\<rparr>)"
    apply (rule Suc.hyps(1)[OF n])
    using Suc.prems ui ux le by (simp_all add: ws word_le_nat_alt)
  have memeq: "xor_cols (unat (Coord_x s) + 1) n (unat (Coord_y s) div 8) m
                 ((mem s)(unat (Coord_x s) := (mem s (unat (Coord_x s)))(unat (Coord_y s) div 8 := ?d)))
             = xor_cols (unat (Coord_x s)) (Suc n) (unat (Coord_y s) div 8) m (mem s)"
    by (intro ext) (auto simp: xor_cols_def ReadData_def)
  show ?case
    apply (subst InvertRect_masked.simps)
    using le IH n ux memeq Suc.hyps(2)
    by (simp add: Let_def merge_is_xor ws)
qed

lemma InvertRect_full_eq:
  assumes "unat (Coord_y s) mod 8 = 0" "unat width < 255" "unat i \<le> unat width + 1"
    "unat (Coord_x s) + (unat width + 1 - unat i) \<le> 255"
  shows "InvertRect_full width i s =
     Some (s\<lparr>mem := xor_cols (unat (Coord_x s)) (unat width + 1 - unat i) (unat (Coord_y s) div 8) (- 1) (mem s),
             Coord_x := Coord_x s + (width + 1 - i)\<rparr>)"
  using assms
proof (induction "unat width + 1 - unat i" arbitrary: i s)
  case 0
  then have "\<not> i \<le> width" by (simp add: word_le_nat_alt)
  moreover have "width + 1 - i = 0"
    using 0 by (simp add: word_unat_eq_iff unat_word_ariths unat_sub word_le_nat_alt)
  ultimately show ?case using 0(1)
    by (subst InvertRect_full.simps) simp
next
  case (Suc n)
  then have le: "i \<le> width" by (simp add: word_le_nat_alt)
  have ui: "unat (i + 1) = unat i + 1"
    using Suc.prems le by (simp add: unat_word_ariths word_le_nat_alt)
  have ux: "unat (Coord_x s + 1) = unat (Coord_x s) + 1"
    using Suc.prems Suc.hyps(2) by (simp add: unat_word_ariths)
  let ?d = "NOT (ReadData s)"
  let ?s = "WriteData ?d s"
  have ws: "?s = s\<lparr>mem := (mem s)(unat (Coord_x s) := (mem s (unat (Coord_x s)))(unat (Coord_y s) div 8 := ?d)),
                     Coord_x := Coord_x s + 1\<rparr>"
    using Suc.prems(1) by (simp add: WriteData_def Let_def)
  have n: "n = unat width + 1 - unat (i + 1)" using Suc.hyps(2) ui by simp
  have IH: "InvertRect_full width (i + 1) ?s =
     Some (?s\<lparr>mem := xor_cols (unat (Coord_x ?s)) (unat width + 1 - unat (i + 1)) (unat (Coord_y ?s) div 8) (- 1) (mem ?s),
             Coord_x := Coord_x ?s + (width + 1 - (i + 1))\<rparr>)"
    apply (rule Suc.hyps(1)[OF n])
    using Suc.prems ui ux le by (simp_all add: ws word_le_nat_alt)
  have memeq: "xor_cols (unat (Coord_x s) + 1) n (unat (Coord_y s) div 8) (- 1)
                 ((mem s)(unat (Coord_x s) := (mem s (unat (Coord_x s)))(unat (Coord_y s) div 8 := ?d)))
             = xor_cols (unat (Coord_x s)) (Suc n) (unat (Coord_y s) div 8) (- 1) (mem s)"
    by (intro ext) (auto simp: xor_cols_def ReadData_def)
  show ?case
    apply (subst InvertRect_full.simps)
    using le IH n ux memeq Suc.hyps(2)
    by (simp add: Let_def ws)
qed

lemma InvertRect_pages_eq:
  assumes "unat y mod 8 = 0" "unat width < 255" "unat x + unat width + 1 \<le> 255"
    "unat y + 8 * ((unat height - unat h) div 8) \<le> 255"
  shows "\<exists>h' y' s'. InvertRect_pages x width height h y s = Some (h', y', s') \<and>
     unat h' = unat h + 8 * ((unat height - unat h) div 8) \<and>
     unat y' = unat y + 8 * ((unat height - unat h) div 8) \<and>
     Inverted s' = Inverted s \<and>
     mem s' = (\<lambda>c q. if unat x \<le> c \<and> c \<le> unat x + unat width \<and>
                           q \<in> {unat y div 8 <.. unat y div 8 + (unat height - unat h) div 8}
                       then NOT (mem s c q) else mem s c q)"
  using assms
proof (induction "(unat height - unat h) div 8" arbitrary: h y s)
  case 0
  then have "\<not> unat h + 8 \<le> unat height" by (auto simp: div_eq_0_iff)
  then have "InvertRect_pages x width height h y s = Some (h, y, s)"
    by (subst InvertRect_pages.simps) simp
  moreover have "mem s = (\<lambda>c q. if unat x \<le> c \<and> c \<le> unat x + unat width \<and>
                           q \<in> {unat y div 8 <.. unat y div 8 + (unat height - unat h) div 8}
                       then NOT (mem s c q) else mem s c q)"
    using 0(1)[symmetric] by (intro ext) simp
  ultimately show ?case using 0(1)[symmetric] by simp
next
  case (Suc n)
  have "(unat height - unat h) div 8 \<noteq> 0" using Suc.hyps(2) by simp
  then have "\<not> unat height - unat h < 8" by (simp add: div_eq_0_iff)
  then have ge: "unat h + 8 \<le> unat height" by arith
  have uh: "unat (h + 8) = unat h + 8"
    using ge byte_le_255[of height] by (simp add: unat_word_ariths)
  have uy: "unat (y + 8) = unat y + 8"
    using Suc.prems(4) Suc.hyps(2)[symmetric] by (simp add: unat_word_ariths)
  define k where "k = unat height - (unat h + 8)"
  have "unat height - unat h = k + 8" using ge by (simp add: k_def)
  then have "(unat height - unat h) div 8 = Suc (k div 8)" by simp
  then have n: "n = (unat height - unat (h + 8)) div 8"
    using Suc.hyps(2) uh by (simp add: k_def)
  let ?g = "GotoXY x (y + 8) s"
  have full: "InvertRect_full width 0 ?g =
      Some (?g\<lparr>mem := xor_cols (unat x) (unat width + 1) ((unat y + 8) div 8) (- 1) (mem s),
                Coord_x := x + (width + 1)\<rparr>)"
    using InvertRect_full_eq[of ?g width 0] Suc.prems uy
    by (simp add: GotoXY_def)
  let ?s1 = "?g\<lparr>mem := xor_cols (unat x) (unat width + 1) ((unat y + 8) div 8) (- 1) (mem s),
                Coord_x := x + (width + 1)\<rparr>"
  obtain h' y' s' where IH: "InvertRect_pages x width height (h + 8) (y + 8) ?s1 = Some (h', y', s')"
     "unat h' = unat (h + 8) + 8 * n" "unat y' = unat (y + 8) + 8 * n" "Inverted s' = Inverted ?s1"
     "mem s' = (\<lambda>c q. if unat x \<le> c \<and> c \<le> unat x + unat width \<and>
                           q \<in> {unat (y + 8) div 8 <.. unat (y + 8) div 8 + n}
                       then NOT (mem ?s1 c q) else mem ?s1 c q)"
    using Suc.hyps(1)[OF n, of "y + 8" ?s1] Suc.prems uy uh Suc.hyps(2)[symmetric] n[symmetric]
    by auto
  have memeq: "mem s' = (\<lambda>c q. if unat x \<le> c \<and> c \<le> unat x + unat width \<and>
                           q \<in> {unat y div 8 <.. unat y div 8 + Suc n}
                       then NOT (mem s c q) else mem s c q)"
    unfolding IH(5) using uy
    by (intro ext) (auto simp: xor_cols_def GotoXY_def)
  show ?case
    apply (subst InvertRect_pages.simps)
    using ge full IH(1-4) memeq uh uy Suc.hyps(2)[symmetric]
    by (simp add: GotoXY_def)
qed

lemma byte_FF: "(0xFF :: byte) = - 1"
  by simp

lemma rows_mask_short:
  assumes "off + Suc hh < 8"
  shows "rows_mask (8 * P0 + off) (8 * P0 + off + hh) p =
         (if p = P0 then push_bit off (drop_bit (8 - Suc hh) (0xFF :: byte)) else 0)"
proof (rule bit_eqI)
  fix b
  show "bit (rows_mask (8 * P0 + off) (8 * P0 + off + hh) p) b =
        bit (if p = P0 then push_bit off (drop_bit (8 - Suc hh) (0xFF :: byte)) else 0) b"
    using assms unfolding byte_FF bit_rows_mask
    by (auto simp: bit_simps)
qed

lemma rows_mask_long:
  assumes "off < 8" "8 \<le> off + Suc hh"
  defines "n \<equiv> (Suc hh - (8 - off)) div 8" and "t \<equiv> (Suc hh - (8 - off)) mod 8"
  shows "rows_mask (8 * P0 + off) (8 * P0 + off + hh) p =
         (if p = P0 then push_bit off (0xFF :: byte)
          else if p \<in> {P0 <.. P0 + n} then - 1
          else if p = P0 + n + 1 \<and> 0 < t then NOT (push_bit t (0xFF :: byte))
          else 0)"
proof (rule bit_eqI)
  fix b
  have nt: "Suc hh - (8 - off) = 8 * n + t" "t < 8" by (simp_all add: n_def t_def)
  show "bit (rows_mask (8 * P0 + off) (8 * P0 + off + hh) p) b =
        bit (if p = P0 then push_bit off (0xFF :: byte)
          else if p \<in> {P0 <.. P0 + n} then - 1
          else if p = P0 + n + 1 \<and> 0 < t then NOT (push_bit t (0xFF :: byte))
          else 0) b"
    using assms(1,2) nt unfolding byte_FF bit_rows_mask
    by (auto simp: bit_simps)
qed

lemma masked_from_GotoXY:
  assumes "unat y mod 8 = 0" "unat x + unat width < 255"
  shows "InvertRect_masked m width 0 (GotoXY x y s) =
     Some (s\<lparr>mem := xor_cols (unat x) (Suc (unat width)) (unat y div 8) m (mem s),
             Coord_x := x + (width + 1), Coord_y := y\<rparr>)"
  using InvertRect_masked_eq[of "GotoXY x y s" width 0 m] assms
  by (simp add: GotoXY_def)

text \<open>
  The effect of \<open>InvertRect\<close> on a region that lies within 255 columns and 255 rows:
  the call returns, and it flips exactly the pixels of the columns \<open>x\<close> to
  \<open>x + width\<close> and of the rows \<open>y\<close> to \<open>y + height\<close>.
\<close>

lemma InvertRect_mem:
  assumes "unat x + unat width < 255" "unat y + unat height < 255"
  shows "\<exists>s'. InvertRect x y width height s = Some s' \<and> Inverted s' = Inverted s \<and>
     mem s' = (\<lambda>c p. if unat x \<le> c \<and> c \<le> unat x + unat width
                      then mem s c p XOR rows_mask (unat y) (unat y + unat height) p
                      else mem s c p)"
proof -
  define off where "off = unat y mod 8"
  define P0 where "P0 = unat y div 8"
  define hh where "hh = unat height"
  define y0 where "y0 = y - y mod 8"
  define ht where "ht = height + 1"
  have Y: "unat y = 8 * P0 + off" by (simp add: off_def P0_def)
  have off8: "off < 8" by (simp add: off_def)
  have uht: "unat ht = Suc hh"
    using assms(2) by (simp add: ht_def hh_def unat_word_ariths)
  have uoff: "unat (y mod 8) = off" by (simp add: off_def unat_mod)
  have "y mod 8 \<le> y" using uoff Y by (simp add: word_le_nat_alt)
  then have uy0: "unat y0 = 8 * P0"
    using uoff Y by (simp add: y0_def unat_sub)
  have al0: "unat y0 mod 8 = 0" "unat y0 div 8 = P0" using uy0 by simp_all
  have first: "InvertRect_masked m width 0 (GotoXY x y0 s) =
     Some (s\<lparr>mem := xor_cols (unat x) (Suc (unat width)) P0 m (mem s),
             Coord_x := x + (width + 1), Coord_y := y0\<rparr>)" for m
    using masked_from_GotoXY[OF al0(1) assms(1), of m s] al0(2) by simp
  show ?thesis
  proof (cases "off + Suc hh < 8")
    case True
    then have c1: "unat ht < 8 - unat (y mod 8)" using uht uoff by simp
    have pg: "InvertRect_pages x width ht ht y0 s1 = Some (ht, y0, s1)" for s1
      by (subst InvertRect_pages.simps) simp
    let ?m = "push_bit off (drop_bit (8 - Suc hh) (0xFF :: byte))"
    have res: "InvertRect x y width height s =
       Some (s\<lparr>mem := xor_cols (unat x) (Suc (unat width)) P0 ?m (mem s),
               Coord_x := x + (width + 1), Coord_y := y0\<rparr>)"
      unfolding InvertRect_def Let_def ht_def[symmetric] y0_def[symmetric]
      using c1 uht uoff by (simp add: first pg)
    have "xor_cols (unat x) (Suc (unat width)) P0 ?m (mem s) =
        (\<lambda>c p. if unat x \<le> c \<and> c \<le> unat x + unat width
                      then mem s c p XOR rows_mask (unat y) (unat y + unat height) p
                      else mem s c p)"
      unfolding Y hh_def[symmetric] rows_mask_short[OF True]
      by (intro ext) (auto simp: xor_cols_def)
    then show ?thesis using res by simp
  next
    case False
    then have c1: "\<not> unat ht < 8 - unat (y mod 8)" using uht uoff by simp
    define n where "n = (Suc hh - (8 - off)) div 8"
    define t where "t = (Suc hh - (8 - off)) mod 8"
    have nt: "Suc hh - (8 - off) = 8 * n + t" "t < 8" by (simp_all add: n_def t_def)
    have ge: "8 \<le> off + Suc hh" using False by simp
    have uh1: "unat (8 - y mod 8) = 8 - off"
      using uoff off8 by (simp add: unat_sub word_le_nat_alt)
    let ?m1 = "push_bit off (0xFF :: byte)"
    let ?s1 = "s\<lparr>mem := xor_cols (unat x) (Suc (unat width)) P0 ?m1 (mem s),
             Coord_x := x + (width + 1), Coord_y := y0\<rparr>"
    have tot: "off + Suc hh = 8 + 8 * n + t"
      using nt(1) ge off8 by arith
    have bound: "8 * P0 + off + hh < 255"
      using assms(2) Y by (simp add: hh_def)
    have nn: "(unat ht - unat (8 - y mod 8)) div 8 = n" by (simp add: uht uh1 n_def)
    have p: "unat width < 255" "unat x + unat width + 1 \<le> 255"
        "unat y0 + 8 * ((unat ht - unat (8 - y mod 8)) div 8) \<le> 255"
      unfolding nn uy0 using bound tot off8 assms(1) by arith+
    note r = InvertRect_pages_eq[where x=x and width=width and s="?s1" and y=y0 and height=ht
          and h="8 - y mod 8", OF al0(1) p, unfolded nn al0(2)]
    from r obtain h' y' s2 where pg: "InvertRect_pages x width ht (8 - y mod 8) y0 ?s1 = Some (h', y', s2)"
      and uh0: "unat h' = unat (8 - y mod 8) + 8 * n" and uy0': "unat y' = unat y0 + 8 * n"
      and inv0: "Inverted s2 = Inverted ?s1"
      and mem2: "mem s2 = (\<lambda>c q. if unat x \<le> c \<and> c \<le> unat x + unat width \<and> q \<in> {P0 <.. P0 + n}
                       then NOT (mem ?s1 c q) else mem ?s1 c q)"
      by blast
    have uh': "unat h' = (8 - off) + 8 * n" and uy': "unat y' = 8 * P0 + 8 * n"
      and inv2: "Inverted s2 = Inverted s"
      using uh0 uy0' inv0 uh1 uy0 by simp_all
    have trail_iff: "h' < ht \<longleftrightarrow> 0 < t"
      using uh' uht tot off8 by (simp add: word_less_nat_alt) arith
    have shift: "unat ht - unat h' = t"
      using uh' uht tot off8 by arith
    have target: "(\<lambda>c p. if unat x \<le> c \<and> c \<le> unat x + unat width
                      then mem s c p XOR rows_mask (unat y) (unat y + unat height) p
                      else mem s c p) =
       (\<lambda>c p. if unat x \<le> c \<and> c \<le> unat x + unat width
                      then mem s c p XOR (if p = P0 then ?m1
                          else if p \<in> {P0 <.. P0 + n} then - 1
                          else if p = P0 + n + 1 \<and> 0 < t then NOT (push_bit t (0xFF :: byte))
                          else 0)
                      else mem s c p)"
      unfolding Y hh_def[symmetric] n_def t_def rows_mask_long[OF off8 ge] ..
    show ?thesis
    proof (cases "0 < t")
      case False
      then have res: "InvertRect x y width height s = Some s2"
        unfolding InvertRect_def Let_def ht_def[symmetric] y0_def[symmetric]
        using c1 trail_iff by (simp add: first uoff pg)
      have "mem s2 = (\<lambda>c p. if unat x \<le> c \<and> c \<le> unat x + unat width
                      then mem s c p XOR rows_mask (unat y) (unat y + unat height) p
                      else mem s c p)"
        unfolding target mem2 using False
        by (intro ext) (auto simp: xor_cols_def)
      then show ?thesis using res inv2 by simp
    next
      case True
      let ?m3 = "NOT (push_bit t (0xFF :: byte))"
      have uy8: "unat (y' + 8) = 8 * (P0 + n + 1)"
        using uy' bound tot True off8 by (simp add: unat_word_ariths)
      then have al3: "unat (y' + 8) mod 8 = 0" "unat (y' + 8) div 8 = P0 + n + 1" by simp_all
      have last: "InvertRect_masked ?m3 width 0 (GotoXY x (y' + 8) s2) =
         Some (s2\<lparr>mem := xor_cols (unat x) (Suc (unat width)) (P0 + n + 1) ?m3 (mem s2),
                 Coord_x := x + (width + 1), Coord_y := y' + 8\<rparr>)"
        using masked_from_GotoXY[OF al3(1) assms(1), of ?m3 s2] al3(2) by simp
      have res: "InvertRect x y width height s =
         Some (s2\<lparr>mem := xor_cols (unat x) (Suc (unat width)) (P0 + n + 1) ?m3 (mem s2),
                 Coord_x := x + (width + 1), Coord_y := y' + 8\<rparr>)"
        unfolding InvertRect_def Let_def ht_def[symmetric] y0_def[symmetric]
        using c1 trail_iff True shift by (simp add: first uoff pg last)
      have "xor_cols (unat x) (Suc (unat width)) (P0 + n + 1) ?m3 (mem s2) =
          (\<lambda>c p. if unat x \<le> c \<and> c \<le> unat x + unat width
                      then mem s c p XOR rows_mask (unat y) (unat y + unat height) p
                      else mem s c p)"
        unfolding target mem2 using True
        by (intro ext) (auto simp: xor_cols_def)
      then show ?thesis using res inv2 by simp
    qed
  qed
qed

text \<open>
  C1: for every region within the canvas (\<open>x + width < DISPLAY_WIDTH\<close> and
  \<open>y + height < DISPLAY_HEIGHT\<close>) and every state, \<open>InvertRect(x,y,width,height)\<close>
  returns, the same call on the state it returns also returns, and the pixel memory after
  the two calls is the pixel memory before them. The region may lie in one page, span
  full pages or have partial pages at its top and bottom: no case is excluded.
\<close>

theorem InvertRect_involution:
  fixes W H :: byte
  assumes "unat x + unat width < unat W" "unat y + unat height < unat H"
  shows "\<exists>s1 s2. InvertRect x y width height s = Some s1 \<and>
                 InvertRect x y width height s1 = Some s2 \<and>
                 mem s2 = mem s \<and> Inverted s2 = Inverted s"
proof -
  have b: "unat x + unat width < 255" "unat y + unat height < 255"
    using assms byte_le_255[of W] byte_le_255[of H] by simp_all
  from InvertRect_mem[OF b, of s] obtain s1 where
    1: "InvertRect x y width height s = Some s1" "Inverted s1 = Inverted s"
    "mem s1 = (\<lambda>c p. if unat x \<le> c \<and> c \<le> unat x + unat width
                      then mem s c p XOR rows_mask (unat y) (unat y + unat height) p
                      else mem s c p)"
    by blast
  from InvertRect_mem[OF b, of s1] obtain s2 where
    2: "InvertRect x y width height s1 = Some s2" "Inverted s2 = Inverted s1"
    "mem s2 = (\<lambda>c p. if unat x \<le> c \<and> c \<le> unat x + unat width
                      then mem s1 c p XOR rows_mask (unat y) (unat y + unat height) p
                      else mem s1 c p)"
    by blast
  have "mem s2 = mem s"
    unfolding 2(3) 1(3) by (intro ext) (simp add: xor.assoc)
  then show ?thesis using 1 2 by simp
qed

theorem InvertRect_involution_witness:
  "unat (2 :: byte) + unat (1 :: byte) < unat (128 :: byte) \<and>
   unat (3 :: byte) + unat (10 :: byte) < unat (64 :: byte) \<and>
   (\<exists>s1 s2. InvertRect 2 3 1 10 \<lparr>mem = \<lambda>c p. 0, Coord_x = 0, Coord_y = 0, Inverted = 0\<rparr> = Some s1 \<and>
            InvertRect 2 3 1 10 s1 = Some s2 \<and> mem s2 = (\<lambda>c p. 0) \<and> Inverted s2 = 0)"
  using InvertRect_involution[of 2 1 128 3 10 64 "\<lparr>mem = \<lambda>c p. 0, Coord_x = 0, Coord_y = 0, Inverted = 0\<rparr>"]
  by simp

lemma pixel_flip_region:
  assumes "mem s1 = (\<lambda>c p. if x \<le> c \<and> c \<le> x + w
                      then mem s c p XOR rows_mask y (y + h) p else mem s c p)"
  shows "pixel s1 c r = (if x \<le> c \<and> c \<le> x + w \<and> y \<le> r \<and> r \<le> y + h
                         then \<not> pixel s c r else pixel s c r)"
  unfolding pixel_def assms by (auto simp: bit_simps bit_rows_mask)

text \<open>
  C6: \<open>SetDisplayMode(invert)\<close> on a state whose flag \<open>Inverted\<close> already is
  \<open>invert\<close> returns the state unchanged (pixel memory, cursor and flag). On a state
  whose flag differs it is \<open>InvertRect(0, 0, DISPLAY_WIDTH-1, DISPLAY_HEIGHT-1)\<close>
  followed by the assignment of \<open>invert\<close> to the flag; on a canvas with at least one
  column and one row that call returns, and it flips exactly the pixels of the canvas.
\<close>

theorem SetDisplayMode_inverts_once:
  "(Inverted s = invert \<longrightarrow> SetDisplayMode W H invert s = Some s) \<and>
   (Inverted s \<noteq> invert \<longrightarrow>
      SetDisplayMode W H invert s =
        map_option (\<lambda>s1. s1\<lparr>Inverted := invert\<rparr>) (InvertRect 0 0 (W - 1) (H - 1) s)) \<and>
   (Inverted s \<noteq> invert \<and> 0 < W \<and> 0 < H \<longrightarrow>
      (\<exists>s'. SetDisplayMode W H invert s = Some s' \<and> Inverted s' = invert \<and>
            (\<forall>c r. pixel s' c r = (if c < unat W \<and> r < unat H then \<not> pixel s c r else pixel s c r))))"
proof (intro conjI impI)
  assume "Inverted s = invert"
  then show "SetDisplayMode W H invert s = Some s" by (simp add: SetDisplayMode_def)
next
  assume "Inverted s \<noteq> invert"
  then show "SetDisplayMode W H invert s =
        map_option (\<lambda>s1. s1\<lparr>Inverted := invert\<rparr>) (InvertRect 0 0 (W - 1) (H - 1) s)"
    by (simp add: SetDisplayMode_def split: option.split)
next
  assume a: "Inverted s \<noteq> invert \<and> 0 < W \<and> 0 < H"
  then have W: "unat (W - 1) = unat W - 1" "0 < unat W" and H: "unat (H - 1) = unat H - 1" "0 < unat H"
    by (auto simp: unat_minus_one unat_gt_0 word_gt_0)
  have b: "unat (0 :: byte) + unat (W - 1) < 255" "unat (0 :: byte) + unat (H - 1) < 255"
    using W H byte_le_255[of W] byte_le_255[of H] by simp_all
  from InvertRect_mem[OF b, of s] obtain s1 where
    1: "InvertRect 0 0 (W - 1) (H - 1) s = Some s1" "Inverted s1 = Inverted s"
    "mem s1 = (\<lambda>c p. if unat (0 :: byte) \<le> c \<and> c \<le> unat (0 :: byte) + unat (W - 1)
                      then mem s c p XOR rows_mask (unat (0 :: byte)) (unat (0 :: byte) + unat (H - 1)) p
                      else mem s c p)"
    by blast
  have px: "pixel s1 c r = (if c < unat W \<and> r < unat H then \<not> pixel s c r else pixel s c r)" for c r
    using pixel_flip_region[OF 1(3), of c r] W H by auto
  show "\<exists>s'. SetDisplayMode W H invert s = Some s' \<and> Inverted s' = invert \<and>
            (\<forall>c r. pixel s' c r = (if c < unat W \<and> r < unat H then \<not> pixel s c r else pixel s c r))"
    using a 1(1) px by (simp add: SetDisplayMode_def pixel_def)
qed

theorem SetDisplayMode_inverts_once_witness:
  "SetDisplayMode 128 64 0 \<lparr>mem = \<lambda>c p. 0, Coord_x = 0, Coord_y = 0, Inverted = 0\<rparr>
     = Some \<lparr>mem = \<lambda>c p. 0, Coord_x = 0, Coord_y = 0, Inverted = 0\<rparr> \<and>
   (\<exists>s'. SetDisplayMode 128 64 1 \<lparr>mem = \<lambda>c p. 0, Coord_x = 0, Coord_y = 0, Inverted = 0\<rparr> = Some s' \<and>
         Inverted s' = 1 \<and> pixel s' 127 63 \<and> \<not> pixel s' 128 63 \<and> \<not> pixel s' 127 64)"
proof -
  let ?s = "\<lparr>mem = \<lambda>c p. 0, Coord_x = 0, Coord_y = 0, Inverted = (0 :: byte)\<rparr>"
  have same: "SetDisplayMode 128 64 0 ?s = Some ?s"
    using SetDisplayMode_inverts_once[of ?s 0 128 64] by simp
  have "Inverted ?s \<noteq> 1 \<and> (0 :: byte) < 128 \<and> (0 :: byte) < 64" by simp
  with SetDisplayMode_inverts_once[of ?s 1 128 64] obtain s' where
    1: "SetDisplayMode 128 64 1 ?s = Some s'" "Inverted s' = 1"
       "\<forall>c r. pixel s' c r = (if c < unat (128 :: byte) \<and> r < unat (64 :: byte)
                                then \<not> pixel ?s c r else pixel ?s c r)"
    by blast
  have "pixel s' 127 63" "\<not> pixel s' 128 63" "\<not> pixel s' 127 64"
    using 1(3)[rule_format, of 127 63] 1(3)[rule_format, of 128 63] 1(3)[rule_format, of 127 64]
    by (simp_all add: pixel_def)
  with same 1(1,2) show ?thesis by simp
qed

section \<open>Properties of the rectangles and of DrawBitmap\<close>

lemma pixel_SetPixels:
  "pixel (SetPixels x y x2 y2 color s) c r =
     (if unat x \<le> c \<and> c \<le> unat x2 \<and> unat y \<le> r \<and> r \<le> unat y2
      then color = BLACK else pixel s c r)"
  by (auto simp: pixel_def SetPixels_def bit_simps bit_rows_mask)

lemma unat_add_in_range: "unat (a :: byte) + unat b < unat (B :: byte) \<Longrightarrow> unat (a + b) = unat a + unat b"
  using byte_le_255[of B] by (simp add: unat_word_ariths)

text \<open>
  C3: for a rectangle within the canvas, \<open>FillRect(x,y,width,height,color)\<close> sets
  exactly the pixels of the columns \<open>x\<close> to \<open>x + width\<close> and the rows \<open>y\<close> to
  \<open>y + height\<close>, and \<open>DrawRect(x,y,width,height,color)\<close> sets exactly the pixels
  of that box that lie on its first or last column or row. Both extend over the same
  \<open>width + 1\<close> columns and \<open>height + 1\<close> rows.
\<close>

theorem DrawRect_FillRect_same_box:
  fixes W H :: byte
  assumes "unat x + unat width < unat W" "unat y + unat height < unat H"
  shows "pixel (FillRect x y width height color s) c r =
           (if c \<in> {unat x .. unat x + unat width} \<and> r \<in> {unat y .. unat y + unat height}
            then color = BLACK else pixel s c r) \<and>
         pixel (DrawRect x y width height color s) c r =
           (if c \<in> {unat x .. unat x + unat width} \<and> r \<in> {unat y .. unat y + unat height} \<and>
               (c = unat x \<or> c = unat x + unat width \<or> r = unat y \<or> r = unat y + unat height)
            then color = BLACK else pixel s c r)"
proof -
  have xw: "unat (x + width) = unat x + unat width" by (rule unat_add_in_range[OF assms(1)])
  have yh: "unat (y + height) = unat y + unat height" by (rule unat_add_in_range[OF assms(2)])
  show ?thesis
    by (auto simp: FillRect_def DrawRect_def DrawHLine_def DrawVLine_def Let_def pixel_SetPixels xw yh)
qed

theorem DrawRect_FillRect_same_box_witness:
  "unat (1 :: byte) + unat (2 :: byte) < unat (128 :: byte) \<and>
   unat (3 :: byte) + unat (10 :: byte) < unat (64 :: byte) \<and>
   pixel (FillRect 1 3 2 10 BLACK \<lparr>mem = \<lambda>c p. 0, Coord_x = 0, Coord_y = 0, Inverted = 0\<rparr>) 3 13 \<and>
   pixel (DrawRect 1 3 2 10 BLACK \<lparr>mem = \<lambda>c p. 0, Coord_x = 0, Coord_y = 0, Inverted = 0\<rparr>) 3 13 \<and>
   \<not> pixel (FillRect 1 3 2 10 BLACK \<lparr>mem = \<lambda>c p. 0, Coord_x = 0, Coord_y = 0, Inverted = 0\<rparr>) 4 13 \<and>
   \<not> pixel (DrawRect 1 3 2 10 BLACK \<lparr>mem = \<lambda>c p. 0, Coord_x = 0, Coord_y = 0, Inverted = 0\<rparr>) 3 14"
  using DrawRect_FillRect_same_box[of 1 2 128 3 10 64 BLACK "\<lparr>mem = \<lambda>c p. 0, Coord_x = 0, Coord_y = 0, Inverted = 0\<rparr>" 3 13]
    DrawRect_FillRect_same_box[of 1 2 128 3 10 64 BLACK "\<lparr>mem = \<lambda>c p. 0, Coord_x = 0, Coord_y = 0, Inverted = 0\<rparr>" 4 13]
    DrawRect_FillRect_same_box[of 1 2 128 3 10 64 BLACK "\<lparr>mem = \<lambda>c p. 0, Coord_x = 0, Coord_y = 0, Inverted = 0\<rparr>" 3 14]
  by (simp add: pixel_def)

lemma DrawBitmap_rows_none:
  "unat height < 8 \<Longrightarrow> DrawBitmap_rows pgm x y color width height 0 bitmap s = s"
  by (subst DrawBitmap_rows.simps) simp

text \<open>
  C10: for a bitmap whose height byte is below 8 the loop over the page rows of
  \<open>DrawBitmap\<close> makes no iteration and returns its state unchanged, so no data byte of
  the bitmap is written and the call does not depend on the data bytes. With a nonzero
  height the call is the pre-clear \<open>FillRect(x, y, width, height, WHITE)\<close> and nothing
  else; with height 0 it is the pre-clear when \<open>y\<close> is off a page boundary and the
  identity otherwise. For a nonzero height and a placement within the canvas, the pixels
  the call changes are exactly these: every pixel of the columns \<open>x\<close> to \<open>x + width\<close>
  and of the rows \<open>y\<close> to \<open>y + height\<close> is cleared, and every other pixel keeps its
  value. The bitmap itself occupies the \<open>width\<close> columns \<open>x\<close> to \<open>x + width - 1\<close> and
  the \<open>height\<close> rows \<open>y\<close> to \<open>y + height - 1\<close>: the pre-clear reaches one column and
  one row further, so the pixels \<open>(x + width, y)\<close> and \<open>(x, y + height)\<close>, which lie
  outside the bitmap, are cleared as well. (The doc comment of \<open>FillRect\<close> in the source
  describes an area \<open>width\<close> pixels wide and \<open>height\<close> pixels tall with the lower right
  corner at \<open>x + width - 1\<close>; its body passes \<open>x + width\<close> and \<open>y + height\<close> to
  \<open>SetPixels\<close>.)
\<close>

theorem DrawBitmap_short_height_preclear:
  fixes W H :: byte
  assumes "pgm (bitmap + 1) < 8"
  shows "DrawBitmap_rows pgm x y color (pgm bitmap) (pgm (bitmap + 1)) 0 (bitmap + 2) s1 = s1 \<and>
         (\<forall>pgm'. pgm' bitmap = pgm bitmap \<and> pgm' (bitmap + 1) = pgm (bitmap + 1) \<longrightarrow>
                 DrawBitmap pgm' bitmap x y color s = DrawBitmap pgm bitmap x y color s) \<and>
         (pgm (bitmap + 1) \<noteq> 0 \<longrightarrow>
            DrawBitmap pgm bitmap x y color s = FillRect x y (pgm bitmap) (pgm (bitmap + 1)) WHITE s) \<and>
         (pgm (bitmap + 1) = 0 \<longrightarrow>
            DrawBitmap pgm bitmap x y color s =
              (if y AND 7 \<noteq> 0 then FillRect x y (pgm bitmap) 0 WHITE s else s)) \<and>
         (pgm (bitmap + 1) \<noteq> 0 \<and> unat x + unat (pgm bitmap) < unat W \<and>
          unat y + unat (pgm (bitmap + 1)) < unat H \<longrightarrow>
            pixel (DrawBitmap pgm bitmap x y color s) c r =
              (if c \<in> {unat x .. unat x + unat (pgm bitmap)} \<and>
                  r \<in> {unat y .. unat y + unat (pgm (bitmap + 1))}
               then False else pixel s c r) \<and>
            \<not> pixel (DrawBitmap pgm bitmap x y color s) (unat x + unat (pgm bitmap)) (unat y) \<and>
            \<not> pixel (DrawBitmap pgm bitmap x y color s) (unat x) (unat y + unat (pgm (bitmap + 1))))"
proof -
  have h: "unat (pgm (bitmap + 1)) < 8" using assms by (simp add: word_less_nat_alt)
  have "pgm (bitmap + 1) AND mask 3 = pgm (bitmap + 1)"
    using assms by (intro less_mask_eq) simp
  then have and7: "pgm (bitmap + 1) AND 7 = pgm (bitmap + 1)"
    by (simp add: mask_eq_exp_minus_1)
  have D: "DrawBitmap pgm' bitmap x y color s =
      (if y AND 7 \<noteq> 0 \<or> pgm' (bitmap + 1) AND 7 \<noteq> 0
       then FillRect x y (pgm' bitmap) (pgm' (bitmap + 1)) WHITE s else s)"
    if "unat (pgm' (bitmap + 1)) < 8" for pgm'
    by (simp only: DrawBitmap_def ReadPgmData_def Let_def DrawBitmap_rows_none[OF that])
  have 1: "DrawBitmap_rows pgm x y color (pgm bitmap) (pgm (bitmap + 1)) 0 (bitmap + 2) s1 = s1"
    by (rule DrawBitmap_rows_none[OF h])
  have 2: "DrawBitmap pgm' bitmap x y color s = DrawBitmap pgm bitmap x y color s"
    if "pgm' bitmap = pgm bitmap \<and> pgm' (bitmap + 1) = pgm (bitmap + 1)" for pgm'
    using that h D[of pgm'] D[of pgm] by simp
  have 3: "DrawBitmap pgm bitmap x y color s = FillRect x y (pgm bitmap) (pgm (bitmap + 1)) WHITE s"
    if "pgm (bitmap + 1) \<noteq> 0"
    using that and7 D[of pgm, OF h] by simp
  have 4: "DrawBitmap pgm bitmap x y color s = (if y AND 7 \<noteq> 0 then FillRect x y (pgm bitmap) 0 WHITE s else s)"
    if "pgm (bitmap + 1) = 0"
    using D[of pgm, OF h] that by simp
  have 5: "pixel (DrawBitmap pgm bitmap x y color s) c' r' =
              (if c' \<in> {unat x .. unat x + unat (pgm bitmap)} \<and>
                  r' \<in> {unat y .. unat y + unat (pgm (bitmap + 1))}
               then False else pixel s c' r')"
    if nz: "pgm (bitmap + 1) \<noteq> 0" and xw: "unat x + unat (pgm bitmap) < unat W"
      and yh: "unat y + unat (pgm (bitmap + 1)) < unat H" for c' r'
  proof -
    have a: "unat (x + pgm bitmap) = unat x + unat (pgm bitmap)" by (rule unat_add_in_range[OF xw])
    have b: "unat (y + pgm (bitmap + 1)) = unat y + unat (pgm (bitmap + 1))"
      by (rule unat_add_in_range[OF yh])
    show ?thesis
      unfolding 3[OF nz] FillRect_def pixel_SetPixels a b
      by (auto simp: WHITE_def BLACK_def)
  qed
  have 6: "\<not> pixel (DrawBitmap pgm bitmap x y color s) (unat x + unat (pgm bitmap)) (unat y)"
    "\<not> pixel (DrawBitmap pgm bitmap x y color s) (unat x) (unat y + unat (pgm (bitmap + 1)))"
    if "pgm (bitmap + 1) \<noteq> 0" "unat x + unat (pgm bitmap) < unat W"
       "unat y + unat (pgm (bitmap + 1)) < unat H"
    using 5[OF that] by simp_all
  from 1 2 3 4 5 6 show ?thesis by blast
qed

theorem DrawBitmap_short_height_preclear_witness:
  "(\<lambda>a. if a = 0 then 5 else if a = 1 then 4 else 0xFF) (0 + 1 :: nat) < (8 :: byte) \<and>
   (\<lambda>a. if a = 0 then 5 else if a = 1 then 4 else 0xFF) (0 + 1 :: nat) \<noteq> (0 :: byte) \<and>
   unat (10 :: byte) + unat (5 :: byte) < unat (128 :: byte) \<and>
   unat (3 :: byte) + unat (4 :: byte) < unat (64 :: byte) \<and>
   (let s' = DrawBitmap (\<lambda>a. if a = 0 then 5 else if a = 1 then 4 else 0xFF) 0 10 3 BLACK
                \<lparr>mem = \<lambda>c p. 0xFF, Coord_x = 0, Coord_y = 0, Inverted = 0\<rparr>
    in \<not> pixel s' 10 3 \<and> \<not> pixel s' 14 6 \<and> \<not> pixel s' 15 3 \<and> \<not> pixel s' 10 7 \<and>
       \<not> pixel s' 15 7 \<and> pixel s' 16 3 \<and> pixel s' 10 8 \<and> pixel s' 9 3 \<and> pixel s' 10 2)"
proof -
  let ?pgm = "\<lambda>a::nat. if a = 0 then 5 else if a = 1 then 4 else (0xFF :: byte)"
  let ?s = "\<lparr>mem = \<lambda>c p. 0xFF, Coord_x = 0, Coord_y = 0, Inverted = 0\<rparr>"
  note T = DrawBitmap_short_height_preclear[where pgm = ?pgm and bitmap = 0 and x = 10 and y = 3
      and color = BLACK and s = ?s and ?s1.0 = ?s and W = 128 and H = 64]
  have h: "?pgm (0 + 1) < 8" by simp
  have g: "?pgm (0 + 1) \<noteq> 0 \<and> unat (10 :: byte) + unat (?pgm 0) < unat (128 :: byte) \<and>
           unat (3 :: byte) + unat (?pgm (0 + 1)) < unat (64 :: byte)" by simp
  have P: "pixel (DrawBitmap ?pgm 0 10 3 BLACK ?s) c r =
             (if c \<in> {10 .. 15} \<and> r \<in> {3 .. 7} then False else pixel ?s c r)" for c r
    using T[of c r, OF h, THEN conjunct2, THEN conjunct2, THEN conjunct2, THEN conjunct2,
        THEN mp, OF g] by simp
  show ?thesis
    unfolding Let_def P by (simp add: pixel_def)
qed

text \<open>
  C5: a bitmap one column wide and 12 rows high, with the data bytes \<open>0xFF\<close> (rows 0
  to 7) and \<open>0x0F\<close> (rows 8 to 11), drawn at (0, 0) in \<open>BLACK\<close> on the blank
  canvas. The height is not a multiple of 8, so the destination is pre-cleared; the loop
  then writes \<open>12 / 8 = 1\<close> page row. The pixel (0, 7) is set, and the pixel (0, 8),
  which the second data byte sets, stays cleared.
\<close>

theorem DrawBitmap_drops_partial_page:
  "bit ((\<lambda>a. [1, 12, 0xFF, 0x0F :: byte] ! a) 3) 0 \<and>
   \<not> pixel (DrawBitmap (\<lambda>a. [1, 12, 0xFF, 0x0F] ! a) 0 0 0 BLACK
              \<lparr>mem = \<lambda>c p. 0, Coord_x = 0, Coord_y = 0, Inverted = 0\<rparr>) 0 8 \<and>
   pixel (DrawBitmap (\<lambda>a. [1, 12, 0xFF, 0x0F] ! a) 0 0 0 BLACK
              \<lparr>mem = \<lambda>c p. 0, Coord_x = 0, Coord_y = 0, Inverted = 0\<rparr>) 0 7"
  by (simp add: DrawBitmap_def ReadPgmData_def Let_def DrawBitmap_rows.simps DrawBitmap_cols.simps
        FillRect_def SetPixels_def GotoXY_def WriteData_def pixel_def BLACK_def WHITE_def)

theorem DrawBitmap_drops_partial_page_witness:
  "\<not> pixel (DrawBitmap (\<lambda>a. [1, 12, 0xFF, 0x0F] ! a) 0 0 0 BLACK
              \<lparr>mem = \<lambda>c p. 0, Coord_x = 0, Coord_y = 0, Inverted = 0\<rparr>) 0 8"
  using DrawBitmap_drops_partial_page by simp

section \<open>Vertical lines drawn by DrawLine\<close>

lemma sint_half_nonneg: "0 \<le> sint (d div 2 :: byte)"
proof -
  have "uint (d div 2) = uint d div 2" by (simp add: uint_div_distrib)
  moreover have "uint d < 256" using unsigned_less[of d, where ?'a = int] by simp
  ultimately have u: "uint (d div 2) < 128" "0 \<le> uint (d div 2)" by simp_all
  have "sint (d div 2) = signed_take_bit 7 (uint (d div 2))" by (simp add: sint_uint)
  also have "\<dots> = uint (d div 2)"
  proof (rule signed_take_bit_int_eq_self)
    show "- (2 ^ 7) \<le> uint (d div 2)" by (rule order_trans[of _ 0]) simp_all
    show "uint (d div 2) < 2 ^ 7" using u(1) by simp
  qed
  finally show ?thesis using u by simp
qed

lemma pixel_SetDot:
  "pixel (SetDot x y color s) c r =
     (if c = unat x \<and> r = unat y then color = BLACK else pixel s c r)"
proof -
  have "r = unat y" if "r div 8 = unat y div 8" "r mod 8 = unat y mod 8"
    using that by (metis div_mult_mod_eq)
  then show ?thesis
    by (auto simp: pixel_def SetDot_def Let_def bit_simps)
qed

lemma DrawLine_loop_vertical:
  assumes "unat xe < 255" "unat x \<le> unat xe + 1" "0 \<le> sint e"
  shows "\<exists>s'. DrawLine_loop True dx 0 ys xe color x y e s = Some s' \<and>
     (\<forall>c r. pixel s' c r = (if c = unat y \<and> unat x \<le> r \<and> r \<le> unat xe
                            then color = BLACK else pixel s c r))"
  using assms
proof (induction "unat xe + 1 - unat x" arbitrary: x s)
  case 0
  then have "\<not> x \<le> xe" "unat xe < unat x" by (simp_all add: word_le_nat_alt)
  then show ?case by (subst DrawLine_loop.simps) auto
next
  case (Suc n)
  then have le: "x \<le> xe" "unat x \<le> unat xe" by (simp_all add: word_le_nat_alt)
  have ux: "unat (x + 1) = unat x + 1"
    using Suc.prems le by (simp add: unat_word_ariths)
  have n: "n = unat xe + 1 - unat (x + 1)" using Suc.hyps(2) ux by simp
  have b: "unat (x + 1) \<le> unat xe + 1" using le ux by simp
  from Suc.hyps(1)[OF n Suc.prems(1) b Suc.prems(3), of "SetDot y x color s"]
  obtain s' where s': "DrawLine_loop True dx 0 ys xe color (x + 1) y e (SetDot y x color s) = Some s'"
    "\<forall>c r. pixel s' c r = (if c = unat y \<and> unat (x + 1) \<le> r \<and> r \<le> unat xe
                            then color = BLACK else pixel (SetDot y x color s) c r)"
    by blast
  have "DrawLine_loop True dx 0 ys xe color x y e s = Some s'"
    apply (subst DrawLine_loop.simps)
    using le Suc.prems(3) s'(1) by (simp add: Let_def)
  moreover have "pixel s' c r = (if c = unat y \<and> unat x \<le> r \<and> r \<le> unat xe
                            then color = BLACK else pixel s c r)" for c r
    using s'(2)[rule_format, of c r] ux le by (auto simp: pixel_SetDot)
  ultimately show ?case by blast
qed

lemma DrawLine_loop_point:
  assumes "unat x < 255"
  shows "DrawLine_loop False 0 0 ys x color x y 0 s = Some (SetDot x y color s)"
proof -
  have "unat (x + 1) = unat x + 1" using assms by (simp add: unat_word_ariths)
  then have "\<not> x + 1 \<le> x" by (simp add: word_le_nat_alt)
  then have "DrawLine_loop False 0 0 ys x color (x + 1) y 0 (SetDot x y color s) = Some (SetDot x y color s)"
    by (subst DrawLine_loop.simps) simp
  then show ?thesis
    by (subst DrawLine_loop.simps) (simp add: Let_def)
qed

lemma absDiff_self [simp]: "absDiff x x = 0"
  by (simp add: absDiff_def)

lemma absDiff_pos: "x \<noteq> y \<Longrightarrow> 0 < absDiff x y"
  using absDiff_nonneg[of x y] absDiff_0_iff[of x y] by linarith

lemma DrawLine_vertical:
  assumes "c < W" "y1 < H" "y2 < H"
  shows "\<exists>s'. DrawLine W H c y1 c y2 color s = Some s' \<and>
     (\<forall>cc r. pixel s' cc r =
        (if cc = unat c \<and> min (unat y1) (unat y2) \<le> r \<and> r \<le> max (unat y1) (unat y2)
         then color = BLACK else pixel s cc r))"
proof -
  have nle: "\<not> W \<le> c" "\<not> H \<le> y1" "\<not> H \<le> y2" using assms by simp_all
  have fud: "DrawLine W H c y1 c y2 color s = DrawLine_from c y1 c y2 color s"
    by (simp add: DrawLine_fudge nle)
  have lt: "unat c < 255" "unat y1 < 255" "unat y2 < 255"
    using assms byte_le_255[of W] byte_le_255[of H] by (simp_all add: word_less_nat_alt)
  from byte_order_cases[of y1 y2] show ?thesis
  proof (elim disjE conjE)
    assume eq: "y1 = y2"
    have "DrawLine_from c y1 c y2 color s = Some (SetDot c y1 color s)"
      using eq by (simp add: DrawLine_from_def Let_def DrawLine_loop_point[OF lt(1)])
    then show ?thesis using eq fud by (auto simp: pixel_SetDot)
  next
    assume a: "y1 < y2" "\<not> y2 < y1" "y1 \<noteq> y2"
    have l: "DrawLine_from c y1 c y2 color s =
        DrawLine_loop True (y2 - y1) 0 (- 1) y2 color y1 c ((y2 - y1) div 2) s"
      using a absDiff_pos[OF a(3)] by (simp add: DrawLine_from_def Let_def)
    have u: "unat y1 \<le> unat y2 + 1" using a(1) by (simp add: word_less_nat_alt)
    from DrawLine_loop_vertical[where xe=y2 and x=y1 and e="(y2 - y1) div 2" and dx="y2 - y1"
        and ys="- 1" and color=color and y=c and s=s, OF lt(3) u sint_half_nonneg]
    show ?thesis using a(1) unfolding fud l by (auto simp: word_less_nat_alt min_def max_def)
  next
    assume a: "y2 < y1" "\<not> y1 < y2" "y1 \<noteq> y2"
    have l: "DrawLine_from c y1 c y2 color s =
        DrawLine_loop True (y1 - y2) 0 (- 1) y1 color y2 c ((y1 - y2) div 2) s"
      using a absDiff_pos[OF a(3)] by (simp add: DrawLine_from_def Let_def)
    have u: "unat y2 \<le> unat y1 + 1" using a(1) by (simp add: word_less_nat_alt)
    from DrawLine_loop_vertical[where xe=y1 and x=y2 and e="(y1 - y2) div 2" and dx="y1 - y2"
        and ys="- 1" and color=color and y=c and s=s, OF lt(2) u sint_half_nonneg]
    show ?thesis using a(1) unfolding fud l by (auto simp: word_less_nat_alt min_def max_def)
  qed
qed

section \<open>Properties of FillCircle\<close>

lemma sq_sub_mono:
  fixes a a' :: int
  assumes "0 \<le> a" "a \<le> a'"
  shows "a * a - a \<le> a' * a' - a'"
proof -
  define d where "d = a' - a"
  have d: "0 \<le> d" "a' = a + d" using assms by (simp_all add: d_def)
  have eq: "a' * a' - a' - (a * a - a) = d * (2 * a + d - 1)"
    unfolding d(2) by (simp add: algebra_simps)
  have "0 \<le> d * (2 * a + d - 1)"
  proof (cases "d = 0")
    case True then show ?thesis by simp
  next
    case False
    then have "1 \<le> d" using d(1) by simp
    then show ?thesis using assms(1) d(1) by (intro mult_nonneg_nonneg) simp_all
  qed
  then show ?thesis using eq by linarith
qed

lemma sq_mono_int:
  fixes a a' :: int
  assumes "0 \<le> a" "a \<le> a'"
  shows "a * a \<le> a' * a'"
  using assms by (intro mult_mono) simp_all

lemma disc_fn_commute: "disc_fn a b = disc_fn b a"
  by (simp add: disc_fn_def max.commute)

lemma disc_fn_mono1:
  assumes "0 \<le> a" "a \<le> a'" "0 \<le> b"
  shows "disc_fn a b \<le> disc_fn a' b"
proof (cases "a' \<le> b")
  case True
  then show ?thesis using assms sq_mono_int[OF assms(1,2)] by (simp add: disc_fn_def max_def)
next
  case False
  show ?thesis
  proof (cases "b \<le> a")
    case True
    then show ?thesis using False assms sq_sub_mono[OF assms(1,2)] by (simp add: disc_fn_def max_def)
  next
    case F: False
    then show ?thesis using False assms sq_sub_mono[OF assms(1,2)] by (simp add: disc_fn_def max_def)
  qed
qed

lemma disc_fn_mono:
  assumes "0 \<le> a" "a \<le> a'" "0 \<le> b" "b \<le> b'"
  shows "disc_fn a b \<le> disc_fn a' b'"
proof -
  have "disc_fn a b \<le> disc_fn a' b" by (rule disc_fn_mono1[OF assms(1,2,3)])
  also have "\<dots> = disc_fn b a'" by (rule disc_fn_commute)
  also have "\<dots> \<le> disc_fn b' a'" using assms by (intro disc_fn_mono1) simp_all
  also have "\<dots> = disc_fn a' b'" by (rule disc_fn_commute)
  finally show ?thesis .
qed

lemma disc_fn_nonneg: "0 \<le> a \<Longrightarrow> 0 \<le> b \<Longrightarrow> 0 \<le> disc_fn a b"
  using disc_fn_mono[of 0 a 0 b] by (simp add: disc_fn_def)

lemma in_disc_down:
  assumes "in_disc R a b" "\<bar>a'\<bar> \<le> \<bar>a\<bar>" "\<bar>b'\<bar> \<le> \<bar>b\<bar>"
  shows "in_disc R a' b'"
proof (cases "a = 0 \<and> b = 0")
  case True
  then show ?thesis using assms by (simp add: in_disc_def)
next
  case False
  then have "disc_fn \<bar>a\<bar> \<bar>b\<bar> < int R * int R" using assms(1) by (auto simp: in_disc_def)
  moreover have "disc_fn \<bar>a'\<bar> \<bar>b'\<bar> \<le> disc_fn \<bar>a\<bar> \<bar>b\<bar>"
    using assms(2,3) by (intro disc_fn_mono) simp_all
  ultimately show ?thesis by (simp add: in_disc_def)
qed

lemma in_disc_sym:
  "in_disc R (- a) b = in_disc R a b" "in_disc R a (- b) = in_disc R a b"
  "in_disc R b a = in_disc R a b"
  by (auto simp: in_disc_def disc_fn_commute)

lemma in_disc_0: "in_disc 0 a b \<longleftrightarrow> a = 0 \<and> b = 0"
  using disc_fn_nonneg[of "\<bar>a\<bar>" "\<bar>b\<bar>"] by (auto simp: in_disc_def)

lemma painted_step_facts:
  fixes x y r f :: int
  assumes "0 \<le> x" "x < y" "y \<le> r"
    and F: "f = (x + 1) * (x + 1) + y * y - y - r * r"
    and I2: "x * x + y * y - y < r * r"
    and I3: "r * r \<le> x * x + y * y + y"
  defines "y' \<equiv> (if 0 \<le> f then y - 1 else y)"
  shows "disc_fn (x + 1) y' < r * r"
    and "r * r \<le> disc_fn (x + 1) (y' + 1)"
    and "0 \<le> f \<Longrightarrow> r * r \<le> disc_fn y (x + 1)"
    and "0 \<le> f \<Longrightarrow> x + 1 < y \<Longrightarrow> 0 < x"
    and "0 \<le> y'" "y' \<le> y"
proof -
  have e1: "(x + 1) * (x + 1) = x * x + 2 * x + 1" by (simp add: algebra_simps)
  have e2: "(y - 1) * (y - 1) = y * y - 2 * y + 1" by (simp add: algebra_simps)
  have e3: "(y + 1) * (y + 1) = y * y + 2 * y + 1" by (simp add: algebra_simps)
  show "disc_fn (x + 1) y' < r * r"
    using assms(1-3) F I2 unfolding y'_def disc_fn_def max_def e1 e2
    by (auto simp: e1 e2)
  show "r * r \<le> disc_fn (x + 1) (y' + 1)"
    using assms(1-3) F I3 unfolding y'_def disc_fn_def max_def
    by (auto simp: e1 e3)
  show "r * r \<le> disc_fn y (x + 1)" if "0 \<le> f"
    using that assms(1-3) F unfolding disc_fn_def max_def by (auto simp: e1)
  show "0 < x" if "0 \<le> f" "x + 1 < y"
  proof (rule ccontr)
    assume "\<not> 0 < x"
    then have x0: "x = 0" using assms(1) by simp
    have "y * y \<le> r * r" using assms(1-3) by (intro mult_mono) simp_all
    then show False using that F x0 by simp
  qed
  show "0 \<le> y'" "y' \<le> y" using assms(1,2) by (simp_all add: y'_def)
qed

lemma painted_step:
  fixes x y f :: int
  assumes x0: "0 \<le> x" and xy: "x < y" and yr: "y \<le> int R"
    and F: "f = (x + 1) * (x + 1) + y * y - y - int R * int R"
    and I2: "x * x + y * y - y < int R * int R"
    and I3: "int R * int R \<le> x * x + y * y + y"
  defines "y' \<equiv> (if 0 \<le> f then y - 1 else y)"
  shows "painted R (x + 1) y' a b \<longleftrightarrow>
         painted R x y a b \<or> (\<bar>a\<bar> = x + 1 \<and> \<bar>b\<bar> \<le> y') \<or> (\<bar>a\<bar> = y' \<and> \<bar>b\<bar> \<le> x + 1)"
proof -
  note facts = painted_step_facts[OF x0 xy yr F I2 I3, folded y'_def]
  have newlb: "disc_fn (x + 1) y' < int R * int R" by (rule facts(1))
  have colub: "int R * int R \<le> disc_fn (x + 1) (y' + 1)" by (rule facts(2))
  have y'0: "0 \<le> y'" and y'y: "y' \<le> y" by (rule facts(5), rule facts(6))
  have y'cases: "y' = y \<or> (y' = y - 1 \<and> 0 \<le> f)" by (simp add: y'_def)
  have in1: "in_disc R a b" if "\<bar>a\<bar> = x + 1" "\<bar>b\<bar> \<le> y'"
  proof -
    have "disc_fn \<bar>a\<bar> \<bar>b\<bar> \<le> disc_fn (x + 1) y'"
      using that x0 by (intro disc_fn_mono) simp_all
    then show ?thesis using newlb by (simp add: in_disc_def)
  qed
  have in2: "in_disc R a b" if "\<bar>a\<bar> = y'" "\<bar>b\<bar> \<le> x + 1"
  proof -
    have "disc_fn \<bar>a\<bar> \<bar>b\<bar> \<le> disc_fn y' (x + 1)"
      using that y'0 by (intro disc_fn_mono) simp_all
    then show ?thesis using newlb by (simp add: in_disc_def disc_fn_commute[of y'])
  qed
  have out1: "\<bar>b\<bar> \<le> y'" if "in_disc R a b" "\<bar>a\<bar> = x + 1"
  proof (rule ccontr)
    assume "\<not> \<bar>b\<bar> \<le> y'"
    then have "disc_fn (x + 1) (y' + 1) \<le> disc_fn \<bar>a\<bar> \<bar>b\<bar>"
      using that(2) x0 y'0 by (intro disc_fn_mono) simp_all
    moreover have "a \<noteq> 0" using that(2) x0 by auto
    ultimately show False using that(1) colub by (simp add: in_disc_def)
  qed
  have out2: "\<bar>b\<bar> \<le> x" if "in_disc R a b" "\<bar>a\<bar> = y" "0 \<le> f"
  proof (rule ccontr)
    assume "\<not> \<bar>b\<bar> \<le> x"
    then have "disc_fn y (x + 1) \<le> disc_fn \<bar>a\<bar> \<bar>b\<bar>"
      using that(2) x0 xy by (intro disc_fn_mono) simp_all
    moreover have "a \<noteq> 0" using that(2) x0 xy by auto
    ultimately show False using that(1) facts(3)[OF that(3)] by (simp add: in_disc_def)
  qed
  show ?thesis
  proof
    assume p: "painted R (x + 1) y' a b"
    then have d: "in_disc R a b" by (simp add: painted_def)
    consider (le) "\<bar>a\<bar> \<le> x" | (eq) "\<bar>a\<bar> = x + 1" | (gt) "x + 1 < \<bar>a\<bar>" by linarith
    then show "painted R x y a b \<or> (\<bar>a\<bar> = x + 1 \<and> \<bar>b\<bar> \<le> y') \<or> (\<bar>a\<bar> = y' \<and> \<bar>b\<bar> \<le> x + 1)"
    proof cases
      case le
      then show ?thesis using d by (simp add: painted_def)
    next
      case eq
      then show ?thesis using out1[OF d eq] by simp
    next
      case gt
      from p gt have r: "y' < \<bar>a\<bar> \<or> (\<bar>a\<bar> = y' \<and> \<bar>b\<bar> \<le> x + 1)"
        by (auto simp: painted_def)
      show ?thesis
      proof (cases "\<bar>a\<bar> = y' \<and> \<bar>b\<bar> \<le> x + 1")
        case True then show ?thesis by simp
      next
        case False
        with r have ya: "y' < \<bar>a\<bar>" by blast
        show ?thesis
        proof (cases "y < \<bar>a\<bar>")
          case True
          then show ?thesis using d by (simp add: painted_def)
        next
          case False
          with ya y'cases have ay: "\<bar>a\<bar> = y" and f0: "0 \<le> f" by auto
          have "x + 1 < y" using gt ay by simp
          then have "0 < x" using facts(4)[OF f0] by simp
          then show ?thesis using d ay out2[OF d ay f0] by (simp add: painted_def)
        qed
      qed
    qed
  next
    assume "painted R x y a b \<or> (\<bar>a\<bar> = x + 1 \<and> \<bar>b\<bar> \<le> y') \<or> (\<bar>a\<bar> = y' \<and> \<bar>b\<bar> \<le> x + 1)"
    then show "painted R (x + 1) y' a b"
    proof (elim disjE)
      assume p: "painted R x y a b"
      then show ?thesis using y'cases x0 by (auto simp: painted_def)
    next
      assume "\<bar>a\<bar> = x + 1 \<and> \<bar>b\<bar> \<le> y'"
      then show ?thesis using in1 by (simp add: painted_def)
    next
      assume "\<bar>a\<bar> = y' \<and> \<bar>b\<bar> \<le> x + 1"
      then show ?thesis using in2 x0 by (simp add: painted_def)
    qed
  qed
qed

lemma painted_final: "y \<le> x \<Longrightarrow> painted R x y a b \<longleftrightarrow> in_disc R a b"
  by (auto simp: painted_def)

lemma painted_init:
  assumes "0 < R"
  shows "painted R 0 (int R) a b \<longleftrightarrow> a = 0 \<and> \<bar>b\<bar> \<le> int R"
proof -
  have e: "(int R + 1) * (int R + 1) = int R * int R + 2 * int R + 1" by (simp add: algebra_simps)
  have far: "\<not> in_disc R a b" if "int R < \<bar>a\<bar> \<or> int R < \<bar>b\<bar>"
  proof -
    have "disc_fn (int R + 1) 0 \<le> disc_fn \<bar>a\<bar> \<bar>b\<bar> \<or> disc_fn 0 (int R + 1) \<le> disc_fn \<bar>a\<bar> \<bar>b\<bar>"
      using that by (auto intro!: disc_fn_mono)
    then have "int R * int R \<le> disc_fn \<bar>a\<bar> \<bar>b\<bar>"
      by (auto simp: disc_fn_def e)
    moreover have "\<not> (a = 0 \<and> b = 0)" using that by auto
    ultimately show ?thesis by (simp add: in_disc_def)
  qed
  have near: "in_disc R 0 b" if "\<bar>b\<bar> \<le> int R"
  proof -
    have "disc_fn 0 \<bar>b\<bar> \<le> disc_fn 0 (int R)" using that by (intro disc_fn_mono) simp_all
    also have "\<dots> < int R * int R" using assms by (simp add: disc_fn_def)
    finally show ?thesis by (simp add: in_disc_def)
  qed
  show ?thesis
  proof (cases "a = 0")
    case True
    then show ?thesis using far near by (auto simp: painted_def not_less[symmetric])
  next
    case False
    then show ?thesis using far by (auto simp: painted_def)
  qed
qed

lemma step_inv:
  fixes x y f ddF_x ddF_y :: int
  assumes x0: "0 \<le> x" and xy: "x < y" and yr: "y \<le> int R"
    and F: "f = (x + 1) * (x + 1) + y * y - y - int R * int R"
    and I2: "x * x + y * y - y < int R * int R"
    and I3: "int R * int R \<le> x * x + y * y + y"
    and dx: "ddF_x = 2 * x + 1" and dy: "ddF_y = - 2 * y"
  defines "y' \<equiv> (if 0 \<le> f then y - 1 else y)"
  assumes nxt: "x + 1 < y'"
  shows "(x + 1) * (x + 1) + y' * y' - y' < int R * int R"
    and "int R * int R \<le> (x + 1) * (x + 1) + y' * y' + y'"
    and "(if 0 \<le> f then f + (ddF_y + 2) else f) + (ddF_x + 2) =
         (x + 1 + 1) * (x + 1 + 1) + y' * y' - y' - int R * int R"
    and "(if 0 \<le> f then ddF_y + 2 else ddF_y) = - 2 * y'"
    and "ddF_x + 2 = 2 * (x + 1) + 1"
proof -
  note facts = painted_step_facts[OF x0 xy yr F I2 I3, folded y'_def]
  show "(x + 1) * (x + 1) + y' * y' - y' < int R * int R"
    using facts(1) nxt by (simp add: disc_fn_def max_def)
  show "int R * int R \<le> (x + 1) * (x + 1) + y' * y' + y'"
    using facts(2) nxt by (simp add: disc_fn_def max_def algebra_simps)
  show "(if 0 \<le> f then f + (ddF_y + 2) else f) + (ddF_x + 2) =
         (x + 1 + 1) * (x + 1 + 1) + y' * y' - y' - int R * int R"
    unfolding y'_def F dx dy by (simp add: algebra_simps)
  show "(if 0 \<le> f then ddF_y + 2 else ddF_y) = - 2 * y'"
    unfolding y'_def dy by simp
  show "ddF_x + 2 = 2 * (x + 1) + 1" unfolding dx by simp
qed

lemma FillCircle_loop_step:
  "x < y \<Longrightarrow> FillCircle_loop W H x0 y0 color f ddF_x ddF_y x y s =
     (case DrawLine W H (x0 + (x + 1)) (y0 + (if 0 \<le> f then y - 1 else y))
                        (x0 + (x + 1)) (y0 - (if 0 \<le> f then y - 1 else y)) color s of
        None \<Rightarrow> None
      | Some s1 \<Rightarrow>
     (case DrawLine W H (x0 - (x + 1)) (y0 + (if 0 \<le> f then y - 1 else y))
                        (x0 - (x + 1)) (y0 - (if 0 \<le> f then y - 1 else y)) color s1 of
        None \<Rightarrow> None
      | Some s2 \<Rightarrow>
     (case DrawLine W H (x0 + (if 0 \<le> f then y - 1 else y)) (y0 + (x + 1))
                        ((if 0 \<le> f then y - 1 else y) + x0) (y0 - (x + 1)) color s2 of
        None \<Rightarrow> None
      | Some s3 \<Rightarrow>
     (case DrawLine W H (x0 - (if 0 \<le> f then y - 1 else y)) (y0 + (x + 1))
                        (x0 - (if 0 \<le> f then y - 1 else y)) (y0 - (x + 1)) color s3 of
        None \<Rightarrow> None
      | Some s4 \<Rightarrow>
         FillCircle_loop W H x0 y0 color ((if 0 \<le> f then f + (ddF_y + 2) else f) + (ddF_x + 2))
           (ddF_x + 2) (if 0 \<le> f then ddF_y + 2 else ddF_y) (x + 1)
           (if 0 \<le> f then y - 1 else y) s4))))"
  by (subst FillCircle_loop.simps) (simp add: Let_def)

lemma rows_abs:
  "K \<le> Y0 \<Longrightarrow> (min (Y0 + K) (Y0 - K) \<le> r \<and> r \<le> max (Y0 + K) (Y0 - K)) \<longleftrightarrow>
     \<bar>int r - int Y0\<bar> \<le> int (K :: nat)"
  by (simp only: min_def max_def) auto

lemma DrawLine_chord:
  assumes c: "c < W" and lo: "unat k \<le> unat y0" and hi: "unat y0 + unat k < unat H"
  shows "\<exists>s'. DrawLine W H c (y0 + k) c (y0 - k) color s = Some s' \<and>
     (\<forall>cc r. pixel s' cc r =
        (if cc = unat c \<and> \<bar>int r - uint y0\<bar> \<le> uint k
         then color = BLACK else pixel s cc r))"
    and "\<exists>s'. DrawLine W H c (y0 - k) c (y0 + k) color s = Some s' \<and>
     (\<forall>cc r. pixel s' cc r =
        (if cc = unat c \<and> \<bar>int r - uint y0\<bar> \<le> uint k
         then color = BLACK else pixel s cc r))"
proof -
  have up: "unat (y0 + k) = unat y0 + unat k"
    using hi byte_le_255[of H] by (simp add: unat_word_ariths)
  have dn: "unat (y0 - k) = unat y0 - unat k"
    using lo by (simp add: unat_sub word_le_nat_alt)
  have h1: "y0 + k < H" "y0 - k < H" using up dn hi by (simp_all add: word_less_nat_alt)
  have rows: "(min (unat (y0 + k)) (unat (y0 - k)) \<le> r \<and> r \<le> max (unat (y0 + k)) (unat (y0 - k)))
      \<longleftrightarrow> \<bar>int r - uint y0\<bar> \<le> uint k" for r
    unfolding up dn uint_nat by (rule rows_abs[OF lo])
  have rows': "(min (unat (y0 - k)) (unat (y0 + k)) \<le> r \<and> r \<le> max (unat (y0 - k)) (unat (y0 + k)))
      \<longleftrightarrow> \<bar>int r - uint y0\<bar> \<le> uint k" for r
    using rows[of r] by (simp only: min.commute max.commute)
  from DrawLine_vertical[OF c h1(1) h1(2), of color s]
  show "\<exists>s'. DrawLine W H c (y0 + k) c (y0 - k) color s = Some s' \<and>
     (\<forall>cc r. pixel s' cc r =
        (if cc = unat c \<and> \<bar>int r - uint y0\<bar> \<le> uint k
         then color = BLACK else pixel s cc r))"
    unfolding rows[symmetric] by (simp only: conj_assoc)
  from DrawLine_vertical[OF c h1(2) h1(1), of color s]
  show "\<exists>s'. DrawLine W H c (y0 - k) c (y0 + k) color s = Some s' \<and>
     (\<forall>cc r. pixel s' cc r =
        (if cc = unat c \<and> \<bar>int r - uint y0\<bar> \<le> uint k
         then color = BLACK else pixel s cc r))"
    unfolding rows'[symmetric] by (simp only: conj_assoc)
qed

lemma off_plus: "cc = X0 + D \<longleftrightarrow> int cc - int X0 = int (D :: nat)"
  by auto

lemma off_minus: "D \<le> X0 \<Longrightarrow> cc = X0 - D \<longleftrightarrow> int cc - int X0 = - int (D :: nat)"
  by auto

lemma FillCircle_chord_plus:
  assumes "unat x0 + unat d < unat W" "unat k \<le> unat y0" "unat y0 + unat k < unat H"
  shows "\<exists>s'. DrawLine W H (x0 + d) (y0 + k) (x0 + d) (y0 - k) color s = Some s' \<and>
     (\<forall>cc r. pixel s' cc r =
        (if int cc - uint x0 = uint d \<and> \<bar>int r - uint y0\<bar> \<le> uint k
         then color = BLACK else pixel s cc r))"
proof -
  have u: "unat (x0 + d) = unat x0 + unat d"
    using assms(1) byte_le_255[of W] by (simp add: unat_word_ariths)
  then have c: "x0 + d < W" using assms(1) by (simp add: word_less_nat_alt)
  have col: "cc = unat (x0 + d) \<longleftrightarrow> int cc - uint x0 = uint d" for cc
    unfolding u uint_nat by (rule off_plus)
  show ?thesis
    using DrawLine_chord(1)[OF c assms(2,3), of color s] unfolding col .
qed

lemma FillCircle_chord_minus:
  assumes "unat d \<le> unat x0" "unat x0 < unat W" "unat k \<le> unat y0" "unat y0 + unat k < unat H"
  shows "\<exists>s'. DrawLine W H (x0 - d) (y0 + k) (x0 - d) (y0 - k) color s = Some s' \<and>
     (\<forall>cc r. pixel s' cc r =
        (if int cc - uint x0 = - uint d \<and> \<bar>int r - uint y0\<bar> \<le> uint k
         then color = BLACK else pixel s cc r))"
proof -
  have u: "unat (x0 - d) = unat x0 - unat d"
    using assms(1) by (simp add: unat_sub word_le_nat_alt)
  then have c: "x0 - d < W" using assms(2) by (simp add: word_less_nat_alt)
  have col: "cc = unat (x0 - d) \<longleftrightarrow> int cc - uint x0 = - uint d" for cc
    unfolding u uint_nat by (rule off_minus[OF assms(1)])
  show ?thesis
    using DrawLine_chord(1)[OF c assms(3,4), of color s] unfolding col .
qed

lemma abs_eq_cases: "0 \<le> v \<Longrightarrow> \<bar>a\<bar> = v \<longleftrightarrow> a = v \<or> a = - (v :: int)"
  by auto

lemma FillCircle_loop_paints:
  fixes R :: nat
  assumes rng: "R \<le> unat x0" "unat x0 + R < unat W" "R \<le> unat y0" "unat y0 + R < unat H"
    and inv: "x < y \<Longrightarrow> unat y \<le> R \<and> ddF_x = 2 * uint x + 1 \<and> ddF_y = - 2 * uint y \<and>
        f = (uint x + 1) * (uint x + 1) + uint y * uint y - uint y - int R * int R \<and>
        uint x * uint x + uint y * uint y - uint y < int R * int R \<and>
        int R * int R \<le> uint x * uint x + uint y * uint y + uint y"
    and px: "\<forall>c r. pixel s c r =
        (if painted R (uint x) (uint y) (int c - uint x0) (int r - uint y0)
         then color = BLACK else pixel s0 c r)"
  shows "\<exists>s'. FillCircle_loop W H x0 y0 color f ddF_x ddF_y x y s = Some s' \<and>
     (\<forall>c r. pixel s' c r =
        (if in_disc R (int c - uint x0) (int r - uint y0)
         then color = BLACK else pixel s0 c r))"
  using inv px
proof (induction "unat y - unat x" arbitrary: x y f ddF_x ddF_y s rule: less_induct)
  case less
  show ?case
  proof (cases "x < y")
    case False
    then have "uint y \<le> uint x" by (simp add: word_less_def)
    then have "painted R (uint x) (uint y) a b = in_disc R a b" for a b
      by (rule painted_final)
    moreover have "FillCircle_loop W H x0 y0 color f ddF_x ddF_y x y s = Some s"
      using False by (subst FillCircle_loop.simps) simp
    ultimately show ?thesis using less.prems(2) by simp
  next
    case True
    note I = less.prems(1)[OF True]
    define y' where "y' = (if 0 \<le> f then y - 1 else y)"
    define x' where "x' = x + 1"
    have xy: "unat x < unat y" using True by (simp add: word_less_nat_alt)
    have ixy: "uint x < uint y" using True by (simp add: word_less_def)
    have yR: "unat y \<le> R" using I by simp
    have iyR: "uint y \<le> int R" unfolding uint_nat using yR by (rule iffD2[OF of_nat_le_iff])
    have R255: "R < 255" using rng(2) byte_le_255[of W] by simp
    have ux': "unat x' = unat x + 1" using xy yR R255 by (simp add: x'_def unat_word_ariths)
    have "y \<noteq> 0" using xy by auto
    then have uy1: "unat (y - 1) = unat y - 1" by (simp add: unat_minus_one)
    have uy': "unat y' = (if 0 \<le> f then unat y - 1 else unat y)" by (simp add: y'_def uy1)
    have ix': "uint x' = uint x + 1"
      using arg_cong[OF ux', of int] by simp
    have "0 \<le> uint x" by simp
    with ixy have "1 \<le> uint y" by linarith
    then have "uint (y - 1) = uint y - 1"
      using uint_sub_if'[of y 1] by simp
    then have iy': "uint y' = (if 0 \<le> f then uint y - 1 else uint y)" by (simp add: y'_def)
    have x'R: "unat x' \<le> R" "unat y' \<le> R" using ux' uy' xy yR by auto
    have r1: "unat x0 + unat x' < unat W" "unat y' \<le> unat y0" "unat y0 + unat y' < unat H"
      and r2: "unat x' \<le> unat x0" "unat x0 < unat W"
      and r3: "unat x0 + unat y' < unat W" "unat x' \<le> unat y0" "unat y0 + unat x' < unat H"
      and r4: "unat y' \<le> unat x0"
      using x'R rng by simp_all
    obtain s1 where s1: "DrawLine W H (x0 + x') (y0 + y') (x0 + x') (y0 - y') color s = Some s1"
      "\<forall>cc r. pixel s1 cc r =
        (if int cc - uint x0 = uint x' \<and> \<bar>int r - uint y0\<bar> \<le> uint y'
         then color = BLACK else pixel s cc r)"
      using FillCircle_chord_plus[OF r1, of color s] by blast
    obtain s2 where s2: "DrawLine W H (x0 - x') (y0 + y') (x0 - x') (y0 - y') color s1 = Some s2"
      "\<forall>cc r. pixel s2 cc r =
        (if int cc - uint x0 = - uint x' \<and> \<bar>int r - uint y0\<bar> \<le> uint y'
         then color = BLACK else pixel s1 cc r)"
      using FillCircle_chord_minus[OF r2 r1(2,3), of color s1] by blast
    obtain s3 where s3: "DrawLine W H (x0 + y') (y0 + x') (x0 + y') (y0 - x') color s2 = Some s3"
      "\<forall>cc r. pixel s3 cc r =
        (if int cc - uint x0 = uint y' \<and> \<bar>int r - uint y0\<bar> \<le> uint x'
         then color = BLACK else pixel s2 cc r)"
      using FillCircle_chord_plus[OF r3, of color s2] by blast
    obtain s4 where s4: "DrawLine W H (x0 - y') (y0 + x') (x0 - y') (y0 - x') color s3 = Some s4"
      "\<forall>cc r. pixel s4 cc r =
        (if int cc - uint x0 = - uint y' \<and> \<bar>int r - uint y0\<bar> \<le> uint x'
         then color = BLACK else pixel s3 cc r)"
      using FillCircle_chord_minus[OF r4 r2(2) r3(2,3), of color s3] by blast
    define f' where "f' = (if 0 \<le> f then f + (ddF_y + 2) else f) + (ddF_x + 2)"
    define ddy' where "ddy' = (if 0 \<le> f then ddF_y + 2 else ddF_y)"
    have step: "FillCircle_loop W H x0 y0 color f ddF_x ddF_y x y s =
        FillCircle_loop W H x0 y0 color f' (ddF_x + 2) ddy' x' y' s4"
      unfolding FillCircle_loop_step[OF True] y'_def[symmetric] x'_def[symmetric]
        f'_def[symmetric] ddy'_def[symmetric]
      by (simp add: s1(1) s2(1) s3(1) s4(1) add.commute[of y' x0])
    have F: "f = (uint x + 1) * (uint x + 1) + uint y * uint y - uint y - int R * int R"
      and I2: "uint x * uint x + uint y * uint y - uint y < int R * int R"
      and I3: "int R * int R \<le> uint x * uint x + uint y * uint y + uint y"
      and dx: "ddF_x = 2 * uint x + 1" and dy: "ddF_y = - 2 * uint y"
      using I by simp_all
    have x0': "0 \<le> uint x" by simp
    have iy'': "uint y' = (if 0 \<le> f then uint y - 1 else uint y)" by (rule iy')
    have y'0: "0 \<le> uint y'" "0 \<le> uint x'" by simp_all
    have pstep: "painted R (uint x') (uint y') a b \<longleftrightarrow>
         painted R (uint x) (uint y) a b \<or> (\<bar>a\<bar> = uint x' \<and> \<bar>b\<bar> \<le> uint y') \<or>
         (\<bar>a\<bar> = uint y' \<and> \<bar>b\<bar> \<le> uint x')" for a b
      unfolding ix' iy' by (rule painted_step[OF x0' ixy iyR F I2 I3])
    have px4: "pixel s4 cc r =
        (if painted R (uint x') (uint y') (int cc - uint x0) (int r - uint y0)
         then color = BLACK else pixel s0 cc r)" for cc r
      unfolding pstep abs_eq_cases[OF y'0(1)] abs_eq_cases[OF y'0(2)]
      using s4(2)[rule_format, of cc r] s3(2)[rule_format, of cc r] s2(2)[rule_format, of cc r]
        s1(2)[rule_format, of cc r] less.prems(2)[rule_format, of cc r]
      by auto
    have meas: "unat y' - unat x' < unat y - unat x" using ux' uy' xy by auto
    have inv': "unat y' \<le> R \<and> ddF_x + 2 = 2 * uint x' + 1 \<and> ddy' = - 2 * uint y' \<and>
        f' = (uint x' + 1) * (uint x' + 1) + uint y' * uint y' - uint y' - int R * int R \<and>
        uint x' * uint x' + uint y' * uint y' - uint y' < int R * int R \<and>
        int R * int R \<le> uint x' * uint x' + uint y' * uint y' + uint y'" if "x' < y'"
    proof -
      have "uint x' < uint y'" using that by (simp add: word_less_def)
      then have nxt: "uint x + 1 < (if 0 \<le> f then uint y - 1 else uint y)"
        unfolding ix' iy' .
      note si = step_inv[OF x0' ixy iyR F I2 I3 dx dy nxt]
      show ?thesis
        unfolding ix' iy' f'_def ddy'_def using si x'R(2) by simp
    qed
    from less.hyps[OF meas inv', of s4] px4
    show ?thesis unfolding step by simp
  qed
qed

lemma off_zero: "cc = X0 \<longleftrightarrow> int cc - int (X0 :: nat) = 0"
  by auto

text \<open>
  C9: for a centre and a radius whose full disc lies within the canvas,
  \<open>FillCircle(x0,y0,radius,color)\<close> returns, and it sets to \<open>color\<close> exactly the
  pixels whose offset \<open>(a, b)\<close> from the centre satisfies \<open>in_disc radius a b\<close>
  (the offset is the centre, or \<open>a\<^sup>2 + b\<^sup>2 - max \<bar>a\<bar> \<bar>b\<bar> < radius\<^sup>2\<close>); every
  other pixel is unchanged. That set of offsets is mapped to itself by each of the
  reflections about the horizontal, the vertical and the two diagonal axes through the
  centre and by their compositions (the seven images of \<open>(a, b)\<close> are listed), and it
  contains the seed column: every offset \<open>(0, b)\<close> with \<open>\<bar>b\<bar> \<le> radius\<close>.
\<close>

theorem FillCircle_disc:
  assumes "unat radius \<le> unat x0" "unat x0 + unat radius < unat W"
    "unat radius \<le> unat y0" "unat y0 + unat radius < unat H"
  shows "(\<exists>s'. FillCircle W H x0 y0 radius color s = Some s' \<and>
          (\<forall>c r. pixel s' c r =
             (if in_disc (unat radius) (int c - uint x0) (int r - uint y0)
              then color = BLACK else pixel s c r))) \<and>
         (\<forall>a b. in_disc (unat radius) a b \<longrightarrow>
            in_disc (unat radius) (- a) b \<and> in_disc (unat radius) a (- b) \<and>
            in_disc (unat radius) (- a) (- b) \<and> in_disc (unat radius) b a \<and>
            in_disc (unat radius) (- b) a \<and> in_disc (unat radius) b (- a) \<and>
            in_disc (unat radius) (- b) (- a)) \<and>
         (\<forall>b. \<bar>b\<bar> \<le> uint radius \<longrightarrow> in_disc (unat radius) 0 b)"
proof (intro conjI)
  define R where "R = unat radius"
  have uR: "uint radius = int R" by (simp add: R_def)
  have c: "unat x0 + unat (0 :: byte) < unat W" using assms(2) by simp
  obtain s1 where s1: "DrawLine W H x0 (y0 - radius) x0 (y0 + radius) color s = Some s1"
    "\<forall>cc r. pixel s1 cc r =
        (if cc = unat x0 \<and> \<bar>int r - uint y0\<bar> \<le> uint radius
         then color = BLACK else pixel s cc r)"
    using DrawLine_chord(2)[of x0 W radius y0 H color s] assms by (auto simp: word_less_nat_alt)
  have col0: "cc = unat x0 \<longleftrightarrow> int cc - uint x0 = 0" for cc
    unfolding uint_nat by (rule off_zero)
  show "\<exists>s'. FillCircle W H x0 y0 radius color s = Some s' \<and>
          (\<forall>c r. pixel s' c r =
             (if in_disc (unat radius) (int c - uint x0) (int r - uint y0)
              then color = BLACK else pixel s c r))"
  proof (cases "radius = 0")
    case True
    then have l: "FillCircle_loop W H x0 y0 color f dx dy 0 radius s1 = Some s1" for f dx dy
      by (subst FillCircle_loop.simps) simp
    have "R = 0" using True by (simp add: R_def)
    then show ?thesis
      using s1 True l unfolding FillCircle_def Let_def R_def[symmetric]
      by (simp add: in_disc_0 col0)
  next
    case False
    then have R0: "0 < R" by (simp add: R_def unat_gt_0)
    have px: "\<forall>c r. pixel s1 c r =
        (if painted R (uint (0 :: byte)) (uint radius) (int c - uint x0) (int r - uint y0)
         then color = BLACK else pixel s c r)"
      using s1(2) unfolding uR by (simp add: painted_init[OF R0] col0)
    have inv: "unat radius \<le> R \<and> (1 :: int) = 2 * uint (0 :: byte) + 1 \<and>
        - 2 * uint radius = - 2 * uint radius \<and>
        1 - uint radius = (uint (0 :: byte) + 1) * (uint (0 :: byte) + 1) + uint radius * uint radius
            - uint radius - int R * int R \<and>
        uint (0 :: byte) * uint (0 :: byte) + uint radius * uint radius - uint radius < int R * int R \<and>
        int R * int R \<le> uint (0 :: byte) * uint (0 :: byte) + uint radius * uint radius + uint radius"
    proof -
      have "unat radius \<le> R" by (simp add: R_def)
      moreover have "int R * int R - int R < int R * int R" using R0 by simp
      ultimately show ?thesis unfolding uR by simp
    qed
    from FillCircle_loop_paints[OF assms[folded R_def] inv px]
    show ?thesis
      unfolding FillCircle_def Let_def R_def[symmetric] by (simp add: s1(1))
  qed
next
  show "\<forall>a b. in_disc (unat radius) a b \<longrightarrow>
            in_disc (unat radius) (- a) b \<and> in_disc (unat radius) a (- b) \<and>
            in_disc (unat radius) (- a) (- b) \<and> in_disc (unat radius) b a \<and>
            in_disc (unat radius) (- b) a \<and> in_disc (unat radius) b (- a) \<and>
            in_disc (unat radius) (- b) (- a)"
    by (simp add: in_disc_sym)
next
  show "\<forall>b. \<bar>b\<bar> \<le> uint radius \<longrightarrow> in_disc (unat radius) 0 b"
  proof (intro allI impI)
    fix b :: int
    assume b: "\<bar>b\<bar> \<le> uint radius"
    show "in_disc (unat radius) 0 b"
    proof (cases "radius = 0")
      case True
      then show ?thesis using b by (simp add: in_disc_def)
    next
      case False
      then have "0 < unat radius" by (simp add: unat_gt_0)
      from painted_init[OF this, of 0 b] b show ?thesis
        by (simp add: painted_def)
    qed
  qed
qed


theorem FillCircle_disc_witness:
  "unat (4 :: byte) \<le> unat (5 :: byte) \<and> unat (5 :: byte) + unat (4 :: byte) < unat (128 :: byte) \<and>
   unat (4 :: byte) \<le> unat (6 :: byte) \<and> unat (6 :: byte) + unat (4 :: byte) < unat (64 :: byte) \<and>
   (\<exists>s'. FillCircle 128 64 5 6 4 BLACK \<lparr>mem = \<lambda>c p. 0, Coord_x = 0, Coord_y = 0, Inverted = 0\<rparr> = Some s' \<and>
         pixel s' 5 2 \<and> pixel s' 5 10 \<and> pixel s' 1 6 \<and> pixel s' 9 6 \<and> pixel s' 8 9 \<and>
         \<not> pixel s' 9 8 \<and> \<not> pixel s' 5 11)"
proof -
  let ?s = "\<lparr>mem = \<lambda>c p. 0, Coord_x = 0, Coord_y = 0, Inverted = (0 :: byte)\<rparr>"
  have h: "unat (4 :: byte) \<le> unat (5 :: byte)" "unat (5 :: byte) + unat (4 :: byte) < unat (128 :: byte)"
    "unat (4 :: byte) \<le> unat (6 :: byte)" "unat (6 :: byte) + unat (4 :: byte) < unat (64 :: byte)"
    by simp_all
  from FillCircle_disc[OF h, of BLACK ?s] obtain s' where
    1: "FillCircle 128 64 5 6 4 BLACK ?s = Some s'"
    and 2: "\<forall>c r. pixel s' c r =
             (if in_disc (unat (4 :: byte)) (int c - uint (5 :: byte)) (int r - uint (6 :: byte))
              then BLACK = BLACK else pixel ?s c r)"
    by blast
  have "pixel s' 5 2" "pixel s' 5 10" "pixel s' 1 6" "pixel s' 9 6" "pixel s' 8 9"
    "\<not> pixel s' 9 8" "\<not> pixel s' 5 11"
    using 2[rule_format, of 5 2] 2[rule_format, of 5 10] 2[rule_format, of 1 6]
      2[rule_format, of 9 6] 2[rule_format, of 8 9] 2[rule_format, of 9 8] 2[rule_format, of 5 11]
    by (simp_all add: in_disc_def disc_fn_def pixel_def)
  with 1 h show ?thesis by blast
qed

end
